theory Spec2Isabelle
  imports Main "HOL-Library.Word"
begin

section \<open>SerBin: a binary encoder and decoder over C++ streams\<close>

text \<open>
  The development embeds \<^verbatim>\<open>serbin.h\<close>. The header is a family of overloaded
  \<^verbatim>\<open>operator<<\<close> and \<^verbatim>\<open>operator>>\<close> templates over a
  \<^verbatim>\<open>std::fstream\<close>; overload resolution picks one template per static
  type. A static type is a \<open>shape\<close> here, an object of that type a \<open>val\<close>, and
  the two operator families are the functions \<open>encode\<close> and \<open>decode\<close>, one equation per
  template. The target is the one the repository is built for: 8-byte \<^verbatim>\<open>size_t\<close>,
  little-endian object representations.
\<close>

subsection \<open>Bytes and object representations\<close>

type_synonym byte = "8 word"

text \<open>The \<open>k\<close> low-order bytes of an unsigned value, least significant first.\<close>

fun le_bytes :: "nat \<Rightarrow> nat \<Rightarrow> byte list" where
  "le_bytes 0 n = []"
| "le_bytes (Suc k) n = of_nat (n mod 256) # le_bytes k (n div 256)"

fun le_nat :: "byte list \<Rightarrow> nat" where
  "le_nat [] = 0"
| "le_nat (b # bs) = unat b + 256 * le_nat bs"

text \<open>\<^verbatim>\<open>size_t\<close> is 8 bytes; a value wraps modulo \<open>2 ^ 64\<close>.\<close>

definition size_rep :: "nat \<Rightarrow> byte list" where
  "size_rep n = le_bytes 8 (n mod 2 ^ 64)"

text \<open>A 4-byte two's complement \<^verbatim>\<open>int\<close>.\<close>

definition int_rep :: "int \<Rightarrow> byte list" where
  "int_rep i = le_bytes 4 (nat (i mod 2 ^ 32))"

definition bool_rep :: "bool \<Rightarrow> byte list" where
  "bool_rep b = [if b then 1 else 0]"

text \<open>Contextual conversion of a one-byte \<^verbatim>\<open>bool\<close> object: zero is false.\<close>

definition as_bool :: "byte list \<Rightarrow> bool" where
  "as_bool bs = list_ex (\<lambda>b. b \<noteq> 0) bs"

subsection \<open>The two streams\<close>

text \<open>
  \<^verbatim>\<open>SerBin<std::ios::out>\<close>: the bytes written so far, the room the sink has left
  (\<open>None\<close> for a sink that never fills), and the stream's \<^verbatim>\<open>badbit\<close>. A write
  on a stream that is not good does nothing; a write that does not fit stores what fits and
  sets \<^verbatim>\<open>badbit\<close>. The room is counted up to the write at which the stream
  reports the failure: a file stream that buffers reports it when it cannot empty its buffer.
\<close>

record writer =
  out :: "byte list"
  room :: "nat option"
  badbit :: bool

definition stream_write :: "byte list \<Rightarrow> writer \<Rightarrow> writer" where
  "stream_write bs w =
     (if badbit w then w
      else case room w of
        None \<Rightarrow> w\<lparr>out := out w @ bs\<rparr>
      | Some n \<Rightarrow>
          if length bs \<le> n then w\<lparr>out := out w @ bs, room := Some (n - length bs)\<rparr>
          else w\<lparr>out := out w @ take n bs, room := Some 0, badbit := True\<rparr>)"

text \<open>
  \<^verbatim>\<open>SerBin<std::ios::in>\<close>: the bytes not yet read and the stream's
  \<^verbatim>\<open>failbit\<close>. \<^verbatim>\<open>stream.read(p, n)\<close> overwrites the first \<open>n\<close> bytes of the
  buffer at \<open>p\<close>; on a stream that is not good it stores nothing; at end of input it stores
  the bytes that are left, keeps the rest of the buffer, and sets \<^verbatim>\<open>failbit\<close>.
\<close>

record reader =
  inp :: "byte list"
  failbit :: bool

definition stream_read :: "nat \<Rightarrow> byte list \<Rightarrow> reader \<Rightarrow> byte list \<times> reader" where
  "stream_read n buf r =
     (if failbit r then (buf, r)
      else if n \<le> length (inp r) then (take n (inp r) @ drop n buf, r\<lparr>inp := drop n (inp r)\<rparr>)
      else (inp r @ drop (length (inp r)) buf, r\<lparr>inp := [], failbit := True\<rparr>))"

subsection \<open>Shapes and values\<close>

text \<open>
  The static types the header has an overload for. \<open>Pod k\<close> is a fundamental type of
  \<open>k\<close> bytes, \<open>BasicString k\<close> a \<^verbatim>\<open>std::basic_string\<close> of \<open>k\<close>-byte code units.
\<close>

datatype shape =
    Pod nat
  | UniquePtr shape
  | SharedPtr shape
  | BasicString nat
  | Vector shape
  | Array shape nat
  | ListT shape
  | Deque shape
  | SetT shape
  | UnorderedSet shape
  | PairT shape shape
  | MapT shape shape
  | UnorderedMap shape shape
  | Tuple "shape list"
  | Optional shape

text \<open>
  Objects: a fundamental object is its object representation; a container is the list of
  its elements in iteration order (a map: of its key/value pairs); a smart pointer or an
  optional is its payload, if any.
\<close>

datatype val =
    Obj "byte list"
  | Seq "val list"
  | Pr val val
  | Tup "val list"
  | Opt "val option"
  | Ptr "val option"

fun bytes :: "val \<Rightarrow> byte list" where
  "bytes (Obj bs) = bs"
| "bytes _ = []"

fun elems :: "val \<Rightarrow> val list" where
  "elems (Seq xs) = xs"
| "elems _ = []"

fun slots :: "val \<Rightarrow> val list" where
  "slots (Tup vs) = vs"
| "slots _ = []"

fun first :: "val \<Rightarrow> val" where
  "first (Pr a b) = a"
| "first v = v"

fun second :: "val \<Rightarrow> val" where
  "second (Pr a b) = b"
| "second v = v"

fun payload :: "val \<Rightarrow> val option" where
  "payload (Opt p) = p"
| "payload (Ptr p) = p"
| "payload _ = None"

text \<open>\<^verbatim>\<open>serializeAsPOD<T> = std::is_fundamental_v<T>\<close>.\<close>

fun serializeAsPOD :: "shape \<Rightarrow> bool" where
  "serializeAsPOD (Pod k) = True"
| "serializeAsPOD _ = False"

text \<open>\<^verbatim>\<open>sizeof(T)\<close>, used by the header only where \<open>serializeAsPOD\<close> holds.\<close>

fun sizeof :: "shape \<Rightarrow> nat" where
  "sizeof (Pod k) = k"
| "sizeof _ = 0"

text \<open>
  The storage of a contiguous container of fundamental objects, from
  \<^verbatim>\<open>&object[0]\<close> on: the object representations one after the other. \<open>undata\<close>
  reads \<open>n\<close> objects of \<open>k\<close> bytes back from such storage.
\<close>

definition data :: "val list \<Rightarrow> byte list" where
  "data xs = concat (map bytes xs)"

definition undata :: "nat \<Rightarrow> nat \<Rightarrow> byte list \<Rightarrow> val list" where
  "undata k n bs = map (\<lambda>i. Obj (take k (drop (i * k) bs))) [0..<n]"

text \<open>
  The order in which the recursion of the operators descends: a map is above the pair of
  its key and value types, which its loop encodes.
\<close>

fun weight :: "shape \<Rightarrow> nat" where
  "weight (Pod k) = 0"
| "weight (UniquePtr T) = Suc (weight T)"
| "weight (SharedPtr T) = Suc (weight T)"
| "weight (BasicString k) = 0"
| "weight (Vector T) = Suc (weight T)"
| "weight (Array T n) = Suc (weight T)"
| "weight (ListT T) = Suc (weight T)"
| "weight (Deque T) = Suc (weight T)"
| "weight (SetT T) = Suc (weight T)"
| "weight (UnorderedSet T) = Suc (weight T)"
| "weight (PairT A B) = Suc (weight A + weight B)"
| "weight (MapT K V) = Suc (Suc (weight K + weight V))"
| "weight (UnorderedMap K V) = Suc (Suc (weight K + weight V))"
| "weight (Tuple Ts) = Suc (sum_list (map weight Ts))"
| "weight (Optional T) = Suc (weight T)"

lemma weight_slot: "i < length Ts \<Longrightarrow> weight (Ts ! i) < Suc (sum_list (map weight Ts))"
proof -
  assume "i < length Ts"
  then have "weight (Ts ! i) \<in> set (map weight Ts)"
    by simp
  then have "weight (Ts ! i) \<le> sum_list (map weight Ts)"
    by (simp add: member_le_sum_list)
  then show ?thesis
    by simp
qed

subsection \<open>Encoding: \<^verbatim>\<open>operator<<\<close>\<close>

text \<open>Dereferencing a null smart pointer has no defined behaviour; it is the one error.\<close>

datatype error = NullDereference

text \<open>
  One equation per overload, in the header's order. \<open>encode_each\<close> is the range-based
  \<^verbatim>\<open>for\<close> loop over a container, \<open>encode_tuple\<close> the recursion of the tuple
  overload on its template parameter \<^verbatim>\<open>id\<close> (\<open>idx\<close> here).
\<close>

function encode :: "shape \<Rightarrow> val \<Rightarrow> writer \<Rightarrow> error + writer"
  and encode_each :: "shape \<Rightarrow> val list \<Rightarrow> writer \<Rightarrow> error + writer"
  and encode_tuple :: "nat \<Rightarrow> shape list \<Rightarrow> val list \<Rightarrow> writer \<Rightarrow> error + writer"
where
  "encode (Pod k) v w = Inr (stream_write (bytes v) w)"
| "encode (UniquePtr T) v w =
     (let w1 = stream_write (bool_rep (payload v \<noteq> None)) w in
      case payload v of
        None \<Rightarrow> Inl NullDereference
      | Some x \<Rightarrow> encode T x w1)"
| "encode (SharedPtr T) v w =
     (let w1 = stream_write (bool_rep (payload v \<noteq> None)) w in
      case payload v of
        None \<Rightarrow> Inl NullDereference
      | Some x \<Rightarrow> encode T x w1)"
| "encode (BasicString k) v w =
     (let w1 = stream_write (size_rep (length (elems v))) w in
      if length (elems v) > 0
      then Inr (stream_write (take (length (elems v) * k) (data (elems v))) w1)
      else Inr w1)"
| "encode (Vector T) v w =
     (let w1 = stream_write (size_rep (length (elems v))) w in
      if serializeAsPOD T
      then (if length (elems v) > 0
            then Inr (stream_write (take (sizeof T * length (elems v)) (data (elems v))) w1)
            else Inr w1)
      else encode_each T (elems v) w1)"
| "encode (Array T n) v w =
     (if n > 0
      then (if serializeAsPOD T
            then Inr (stream_write (take (sizeof T * n) (data (elems v))) w)
            else encode_each T (elems v) w)
      else Inr w)"
| "encode (ListT T) v w =
     encode_each T (elems v) (stream_write (size_rep (length (elems v))) w)"
| "encode (Deque T) v w =
     encode_each T (elems v) (stream_write (size_rep (length (elems v))) w)"
| "encode (SetT T) v w =
     encode_each T (elems v) (stream_write (size_rep (length (elems v))) w)"
| "encode (UnorderedSet T) v w =
     encode_each T (elems v) (stream_write (size_rep (length (elems v))) w)"
| "encode (PairT A B) v w =
     (case encode A (first v) w of
        Inl e \<Rightarrow> Inl e
      | Inr w1 \<Rightarrow> encode B (second v) w1)"
| "encode (MapT K V) v w =
     encode_each (PairT K V) (elems v) (stream_write (size_rep (length (elems v))) w)"
| "encode (UnorderedMap K V) v w =
     encode_each (PairT K V) (elems v) (stream_write (size_rep (length (elems v))) w)"
| "encode (Tuple Ts) v w = encode_tuple 0 Ts (slots v) w"
| "encode (Optional T) v w =
     (let hasValue = (payload v \<noteq> None);
          w1 = stream_write (bool_rep hasValue) w in
      case payload v of
        None \<Rightarrow> Inr w1
      | Some x \<Rightarrow> encode T x w1)"
| "encode_each T [] w = Inr w"
| "encode_each T (x # xs) w =
     (case encode T x w of
        Inl e \<Rightarrow> Inl e
      | Inr w1 \<Rightarrow> encode_each T xs w1)"
| "encode_tuple idx Ts vs w =
     (if idx < length Ts
      then (case encode (Ts ! idx) (vs ! idx) w of
              Inl e \<Rightarrow> Inl e
            | Inr w1 \<Rightarrow> encode_tuple (idx + 1) Ts vs w1)
      else Inr w)"
  by pat_completeness auto
termination
  by (relation "inv_image (less_than <*lex*> less_than <*lex*> less_than) (\<lambda>a. case a of
          Inl (T, v, w) \<Rightarrow> (weight T, 1, 0)
        | Inr (Inl (T, xs, w)) \<Rightarrow> (weight T, 2, length xs)
        | Inr (Inr (i, Ts, vs, w)) \<Rightarrow> (weight (Tuple Ts), 0, length Ts - i))")
    (auto simp: weight_slot)

subsection \<open>Construction and the containers' own operations\<close>

text \<open>
  Three things the header leaves to its surroundings are parameters of the decoder: the bytes
  an uninitialised fundamental local holds (\<open>indet\<close>, by offset); for each type of
  associative container, which keys the container takes as equivalent (\<open>equivalent\<close>:
  under \<^verbatim>\<open>std::less\<close>, neither key before the other, for the set and the map, and
  under the hash and \<^verbatim>\<open>std::equal_to\<close> for the unordered ones; the first key is the
  one the container holds, the second the new one); and the place in iteration order at which
  the container puts a new element (\<open>slot\<close>). None of them is restricted: the
  equivalence of floating-point keys relates \<open>-0.0\<close> and \<open>+0.0\<close>, that of smart
  pointers compares addresses, so that a newly allocated object is equivalent to none.
\<close>

record env =
  indet :: "nat \<Rightarrow> byte"
  equivalent :: "shape \<Rightarrow> val \<Rightarrow> val \<Rightarrow> bool"
  slot :: "shape \<Rightarrow> val \<Rightarrow> val list \<Rightarrow> nat"

definition uninit :: "env \<Rightarrow> nat \<Rightarrow> byte list" where
  "uninit e n = map (indet e) [0..<n]"

text \<open>\<^verbatim>\<open>T()\<close>: value-initialisation.\<close>

fun value_init :: "shape \<Rightarrow> val" where
  "value_init (Pod k) = Obj (replicate k 0)"
| "value_init (UniquePtr T) = Ptr None"
| "value_init (SharedPtr T) = Ptr None"
| "value_init (BasicString k) = Seq []"
| "value_init (Vector T) = Seq []"
| "value_init (Array T n) = Seq (replicate n (value_init T))"
| "value_init (ListT T) = Seq []"
| "value_init (Deque T) = Seq []"
| "value_init (SetT T) = Seq []"
| "value_init (UnorderedSet T) = Seq []"
| "value_init (PairT A B) = Pr (value_init A) (value_init B)"
| "value_init (MapT K V) = Seq []"
| "value_init (UnorderedMap K V) = Seq []"
| "value_init (Tuple Ts) = Tup (map value_init Ts)"
| "value_init (Optional T) = Opt None"

text \<open>
  \<^verbatim>\<open>T value;\<close>: default-initialisation. A fundamental object, and an array of
  them, is left uninitialised; every class type runs its default constructor.
\<close>

fun default_init :: "env \<Rightarrow> shape \<Rightarrow> val" where
  "default_init e (Pod k) = Obj (uninit e k)"
| "default_init e (Array T n) = Seq (replicate n (default_init e T))"
| "default_init e T = value_init T"

text \<open>\<^verbatim>\<open>resize(s)\<close>: keep the first \<open>s\<close> elements, fill up with value-initialised ones.\<close>

definition resize :: "nat \<Rightarrow> val \<Rightarrow> val list \<Rightarrow> val list" where
  "resize s d xs = take s xs @ replicate (s - length xs) d"

definition insert_at :: "nat \<Rightarrow> val \<Rightarrow> val list \<Rightarrow> val list" where
  "insert_at p x xs = take p xs @ x # drop p xs"

text \<open>
  \<^verbatim>\<open>insert\<close> of a set of type \<open>C\<close>: the element is not inserted when the set
  holds an equivalent one.
\<close>

definition set_insert :: "env \<Rightarrow> shape \<Rightarrow> val \<Rightarrow> val list \<Rightarrow> val list" where
  "set_insert e C x xs =
     (if list_ex (\<lambda>y. equivalent e C y x) xs then xs else insert_at (slot e C x xs) x xs)"

text \<open>
  \<^verbatim>\<open>emplace\<close> of a map of type \<open>C\<close>: the pair is dropped when the map holds
  an entry with an equivalent key.
\<close>

definition map_emplace :: "env \<Rightarrow> shape \<Rightarrow> val \<Rightarrow> val list \<Rightarrow> val list" where
  "map_emplace e C kv xs =
     (if list_ex (\<lambda>y. equivalent e C (first y) (first kv)) xs then xs
      else insert_at (slot e C kv xs) kv xs)"

subsection \<open>Decoding: \<^verbatim>\<open>operator>>\<close>\<close>

text \<open>
  Each overload takes the destination object by reference; the equation takes it as \<open>v\<close>
  and returns it with the stream. \<open>decode_each\<close> is the range-based
  \<^verbatim>\<open>for\<close> over the elements the destination has, \<open>decode_push\<close>,
  \<open>decode_insert\<close> and \<open>decode_emplace\<close> are the counting loops of the list and deque,
  set and map overloads, and \<open>decode_tuple\<close> is the recursion on \<^verbatim>\<open>id\<close>.
  Allocation always succeeds.
\<close>

function decode :: "env \<Rightarrow> shape \<Rightarrow> val \<Rightarrow> reader \<Rightarrow> val \<times> reader"
  and decode_each :: "env \<Rightarrow> shape \<Rightarrow> val list \<Rightarrow> reader \<Rightarrow> val list \<times> reader"
  and decode_push :: "env \<Rightarrow> shape \<Rightarrow> nat \<Rightarrow> nat \<Rightarrow> val list \<Rightarrow> reader \<Rightarrow> val list \<times> reader"
  and decode_insert ::
    "env \<Rightarrow> shape \<Rightarrow> shape \<Rightarrow> nat \<Rightarrow> nat \<Rightarrow> val list \<Rightarrow> reader \<Rightarrow> val list \<times> reader"
  and decode_emplace ::
    "env \<Rightarrow> shape \<Rightarrow> shape \<Rightarrow> shape \<Rightarrow> nat \<Rightarrow> nat \<Rightarrow> val list \<Rightarrow> reader \<Rightarrow>
       val list \<times> reader"
  and decode_tuple :: "env \<Rightarrow> nat \<Rightarrow> shape list \<Rightarrow> val list \<Rightarrow> reader \<Rightarrow> val list \<times> reader"
where
  "decode e (Pod k) v r =
     (case stream_read k (bytes v) r of (bs, r1) \<Rightarrow> (Obj bs, r1))"
| "decode e (UniquePtr T) v r =
     (case stream_read 1 (uninit e 1) r of (hasValue, r1) \<Rightarrow>
        if as_bool hasValue
        then (case decode e T (value_init T) r1 of (x, r2) \<Rightarrow> (Ptr (Some x), r2))
        else (v, r1))"
| "decode e (SharedPtr T) v r =
     (case stream_read 1 (uninit e 1) r of (hasValue, r1) \<Rightarrow>
        if as_bool hasValue
        then (case decode e T (value_init T) r1 of (x, r2) \<Rightarrow> (Ptr (Some x), r2))
        else (v, r1))"
| "decode e (BasicString k) v r =
     (case stream_read 8 (uninit e 8) r of (s, r1) \<Rightarrow>
        if le_nat s > 0
        then (let xs = resize (le_nat s) (value_init (Pod k)) (elems v) in
              case stream_read (length xs * k) (data xs) r1 of (bs, r2) \<Rightarrow>
                (Seq (undata k (length xs) bs), r2))
        else (v, r1))"
| "decode e (Vector T) v r =
     (case stream_read 8 (uninit e 8) r of (s, r1) \<Rightarrow>
        if le_nat s = 0 then (v, r1)
        else (let xs = resize (le_nat s) (value_init T) (elems v) in
              if serializeAsPOD T
              then (case stream_read (sizeof T * le_nat s) (data xs) r1 of (bs, r2) \<Rightarrow>
                      (Seq (undata (sizeof T) (length xs) bs), r2))
              else (case decode_each e T xs r1 of (ys, r2) \<Rightarrow> (Seq ys, r2))))"
| "decode e (Array T n) v r =
     (if n > 0
      then (if serializeAsPOD T
            then (case stream_read (sizeof T * n) (data (elems v)) r of (bs, r1) \<Rightarrow>
                    (Seq (undata (sizeof T) n bs), r1))
            else (case decode_each e T (elems v) r of (ys, r1) \<Rightarrow> (Seq ys, r1)))
      else (v, r))"
| "decode e (ListT T) v r =
     (case stream_read 8 (uninit e 8) r of (s, r1) \<Rightarrow>
        case decode_push e T 0 (le_nat s) (elems v) r1 of (ys, r2) \<Rightarrow> (Seq ys, r2))"
| "decode e (Deque T) v r =
     (case stream_read 8 (uninit e 8) r of (s, r1) \<Rightarrow>
        case decode_push e T 0 (le_nat s) (elems v) r1 of (ys, r2) \<Rightarrow> (Seq ys, r2))"
| "decode e (SetT T) v r =
     (case stream_read 8 (uninit e 8) r of (s, r1) \<Rightarrow>
        case decode_insert e (SetT T) T 0 (le_nat s) (elems v) r1 of
          (ys, r2) \<Rightarrow> (Seq ys, r2))"
| "decode e (UnorderedSet T) v r =
     (case stream_read 8 (uninit e 8) r of (s, r1) \<Rightarrow>
        case decode_insert e (UnorderedSet T) T 0 (le_nat s) (elems v) r1 of
          (ys, r2) \<Rightarrow> (Seq ys, r2))"
| "decode e (PairT A B) v r =
     (case decode e A (first v) r of (a, r1) \<Rightarrow>
        case decode e B (second v) r1 of (b, r2) \<Rightarrow> (Pr a b, r2))"
| "decode e (MapT K V) v r =
     (case stream_read 8 (uninit e 8) r of (s, r1) \<Rightarrow>
        case decode_emplace e (MapT K V) K V 0 (le_nat s) (elems v) r1 of
          (ys, r2) \<Rightarrow> (Seq ys, r2))"
| "decode e (UnorderedMap K V) v r =
     (case stream_read 8 (uninit e 8) r of (s, r1) \<Rightarrow>
        case decode_emplace e (UnorderedMap K V) K V 0 (le_nat s) (elems v) r1 of
          (ys, r2) \<Rightarrow> (Seq ys, r2))"
| "decode e (Tuple Ts) v r =
     (case decode_tuple e 0 Ts (slots v) r of (vs, r1) \<Rightarrow> (Tup vs, r1))"
| "decode e (Optional T) v r =
     (case stream_read 1 (uninit e 1) r of (hasValue, r1) \<Rightarrow>
        if as_bool hasValue
        then (case decode e T (value_init T) r1 of (x, r2) \<Rightarrow> (Opt (Some x), r2))
        else (v, r1))"
| "decode_each e T [] r = ([], r)"
| "decode_each e T (x # xs) r =
     (case decode e T x r of (y, r1) \<Rightarrow>
        case decode_each e T xs r1 of (ys, r2) \<Rightarrow> (y # ys, r2))"
| "decode_push e T i s xs r =
     (if i < s
      then (case decode e T (value_init T) r of (x, r1) \<Rightarrow>
              decode_push e T (i + 1) s (xs @ [x]) r1)
      else (xs, r))"
| "decode_insert e C T i s xs r =
     (if i < s
      then (case decode e T (default_init e T) r of (x, r1) \<Rightarrow>
              decode_insert e C T (i + 1) s (set_insert e C x xs) r1)
      else (xs, r))"
| "decode_emplace e C K V i s xs r =
     (if i < s
      then (case decode e (PairT K V) (value_init (PairT K V)) r of (kv, r1) \<Rightarrow>
              decode_emplace e C K V (i + 1) s (map_emplace e C kv xs) r1)
      else (xs, r))"
| "decode_tuple e idx Ts vs r =
     (if idx < length Ts
      then (case decode e (Ts ! idx) (vs ! idx) r of (x, r1) \<Rightarrow>
              decode_tuple e (idx + 1) Ts (vs[idx := x]) r1)
      else (vs, r))"
  by pat_completeness auto
termination
  by (relation "inv_image (less_than <*lex*> less_than <*lex*> less_than) (\<lambda>a. case a of
          Inl (Inl (e, T, v, r)) \<Rightarrow> (weight T, 1, 0)
        | Inl (Inr (Inl (e, T, xs, r))) \<Rightarrow> (weight T, 2, length xs)
        | Inl (Inr (Inr (e, T, i, s, xs, r))) \<Rightarrow> (weight T, 2, s - i)
        | Inr (Inl (e, C, T, i, s, xs, r)) \<Rightarrow> (weight T, 2, s - i)
        | Inr (Inr (Inl (e, C, K, V, i, s, xs, r))) \<Rightarrow> (weight (PairT K V), 2, s - i)
        | Inr (Inr (Inr (e, i, Ts, vs, r))) \<Rightarrow> (weight (Tuple Ts), 0, length Ts - i))")
    (auto simp: weight_slot)

subsection \<open>Streams and environments to run the operators on\<close>

text \<open>A new output stream on a sink that never fills.\<close>

definition fresh :: writer where
  "fresh = \<lparr>out = [], room = None, badbit = False\<rparr>"

text \<open>A good input stream that holds the bytes \<open>bs\<close>.\<close>

definition source :: "byte list \<Rightarrow> reader" where
  "source bs = \<lparr>inp = bs, failbit = False\<rparr>"

text \<open>
  Uninitialised storage reads as zero; keys are equivalent when they are equal, as those of
  an integer type are; a new element goes to the end.
\<close>

definition zero_env :: env where
  "zero_env =
     \<lparr>indet = (\<lambda>i. 0), equivalent = (\<lambda>C a b. a = b), slot = (\<lambda>C x xs. length xs)\<rparr>"

subsection \<open>Objects of a shape, and their natural equality\<close>

text \<open>
  \<open>of_shape T v\<close>: \<open>v\<close> is an object of the static type \<open>T\<close>. A fundamental object has
  \<open>sizeof\<close> bytes, a container fewer than \<open>2 ^ 64\<close> elements (its size is a
  \<^verbatim>\<open>size_t\<close>), an array its \<open>N\<close> elements, a tuple one slot per type, and the keys of
  a map differ. \<open>same T a b\<close> is the equality the type has: element by element in order for
  sequences, arrays, pairs and tuples; the same members, in any order, for sets and maps; the
  same presence and the same payload for optionals and smart pointers (a pointer is compared
  by what it points to); fundamental objects and strings by their representation.
\<close>

definition is_obj :: "nat \<Rightarrow> val \<Rightarrow> bool" where
  "is_obj k v = (case v of Obj bs \<Rightarrow> length bs = k | _ \<Rightarrow> False)"

text \<open>Every member of either list has a counterpart in the other.\<close>

definition covers :: "('a \<Rightarrow> 'a \<Rightarrow> bool) \<Rightarrow> 'a list \<Rightarrow> 'a list \<Rightarrow> bool" where
  "covers R xs ys =
     (list_all (\<lambda>x. list_ex (\<lambda>y. R x y) ys) xs \<and> list_all (\<lambda>y. list_ex (\<lambda>x. R x y) xs) ys)"

fun same :: "shape \<Rightarrow> val \<Rightarrow> val \<Rightarrow> bool"
  and same_slots :: "shape list \<Rightarrow> val list \<Rightarrow> val list \<Rightarrow> bool"
where
  "same (Pod k) a b = (a = b)"
| "same (UniquePtr T) a b =
     (case payload a of
        None \<Rightarrow> payload b = None
      | Some x \<Rightarrow> (case payload b of None \<Rightarrow> False | Some y \<Rightarrow> same T x y))"
| "same (SharedPtr T) a b =
     (case payload a of
        None \<Rightarrow> payload b = None
      | Some x \<Rightarrow> (case payload b of None \<Rightarrow> False | Some y \<Rightarrow> same T x y))"
| "same (BasicString k) a b = (a = b)"
| "same (Vector T) a b = list_all2 (\<lambda>x y. same T x y) (elems a) (elems b)"
| "same (Array T n) a b = list_all2 (\<lambda>x y. same T x y) (elems a) (elems b)"
| "same (ListT T) a b = list_all2 (\<lambda>x y. same T x y) (elems a) (elems b)"
| "same (Deque T) a b = list_all2 (\<lambda>x y. same T x y) (elems a) (elems b)"
| "same (SetT T) a b =
     covers (\<lambda>x y. same T x y) (elems a) (elems b)"
| "same (UnorderedSet T) a b =
     covers (\<lambda>x y. same T x y) (elems a) (elems b)"
| "same (PairT A B) a b = (same A (first a) (first b) \<and> same B (second a) (second b))"
| "same (MapT K V) a b =
     covers (\<lambda>x y. same K (first x) (first y) \<and> same V (second x) (second y))
       (elems a) (elems b)"
| "same (UnorderedMap K V) a b =
     covers (\<lambda>x y. same K (first x) (first y) \<and> same V (second x) (second y))
       (elems a) (elems b)"
| "same (Tuple Ts) a b = same_slots Ts (slots a) (slots b)"
| "same (Optional T) a b =
     (case payload a of
        None \<Rightarrow> payload b = None
      | Some x \<Rightarrow> (case payload b of None \<Rightarrow> False | Some y \<Rightarrow> same T x y))"
| "same_slots [] vs ws = (vs = [] \<and> ws = [])"
| "same_slots (T # Ts) vs ws =
     (case vs of
        [] \<Rightarrow> False
      | v # vs' \<Rightarrow> (case ws of [] \<Rightarrow> False | w # ws' \<Rightarrow> same T v w \<and> same_slots Ts vs' ws'))"

text \<open>No two entries of a map have the same key.\<close>

fun unique_keys :: "shape \<Rightarrow> val list \<Rightarrow> bool" where
  "unique_keys K [] = True"
| "unique_keys K (x # xs) =
     (\<not> list_ex (\<lambda>y. same K (first x) (first y)) xs \<and> unique_keys K xs)"

fun of_shape :: "shape \<Rightarrow> val \<Rightarrow> bool"
  and of_shapes :: "shape list \<Rightarrow> val list \<Rightarrow> bool"
where
  "of_shape (Pod k) v = is_obj k v"
| "of_shape (UniquePtr T) v =
     (case v of Ptr p \<Rightarrow> (case p of None \<Rightarrow> True | Some x \<Rightarrow> of_shape T x) | _ \<Rightarrow> False)"
| "of_shape (SharedPtr T) v =
     (case v of Ptr p \<Rightarrow> (case p of None \<Rightarrow> True | Some x \<Rightarrow> of_shape T x) | _ \<Rightarrow> False)"
| "of_shape (BasicString k) v =
     (case v of Seq xs \<Rightarrow> length xs < 2 ^ 64 \<and> list_all (is_obj k) xs | _ \<Rightarrow> False)"
| "of_shape (Vector T) v =
     (case v of Seq xs \<Rightarrow> length xs < 2 ^ 64 \<and> list_all (\<lambda>x. of_shape T x) xs | _ \<Rightarrow> False)"
| "of_shape (Array T n) v =
     (case v of Seq xs \<Rightarrow> length xs = n \<and> list_all (\<lambda>x. of_shape T x) xs | _ \<Rightarrow> False)"
| "of_shape (ListT T) v =
     (case v of Seq xs \<Rightarrow> length xs < 2 ^ 64 \<and> list_all (\<lambda>x. of_shape T x) xs | _ \<Rightarrow> False)"
| "of_shape (Deque T) v =
     (case v of Seq xs \<Rightarrow> length xs < 2 ^ 64 \<and> list_all (\<lambda>x. of_shape T x) xs | _ \<Rightarrow> False)"
| "of_shape (SetT T) v =
     (case v of Seq xs \<Rightarrow> length xs < 2 ^ 64 \<and> list_all (\<lambda>x. of_shape T x) xs | _ \<Rightarrow> False)"
| "of_shape (UnorderedSet T) v =
     (case v of Seq xs \<Rightarrow> length xs < 2 ^ 64 \<and> list_all (\<lambda>x. of_shape T x) xs | _ \<Rightarrow> False)"
| "of_shape (PairT A B) v =
     (case v of Pr a b \<Rightarrow> of_shape A a \<and> of_shape B b | _ \<Rightarrow> False)"
| "of_shape (MapT K V) v =
     (case v of
        Seq xs \<Rightarrow> length xs < 2 ^ 64 \<and>
          list_all (\<lambda>x. case x of Pr a b \<Rightarrow> of_shape K a \<and> of_shape V b | _ \<Rightarrow> False) xs \<and>
          unique_keys K xs
      | _ \<Rightarrow> False)"
| "of_shape (UnorderedMap K V) v =
     (case v of
        Seq xs \<Rightarrow> length xs < 2 ^ 64 \<and>
          list_all (\<lambda>x. case x of Pr a b \<Rightarrow> of_shape K a \<and> of_shape V b | _ \<Rightarrow> False) xs \<and>
          unique_keys K xs
      | _ \<Rightarrow> False)"
| "of_shape (Tuple Ts) v = (case v of Tup vs \<Rightarrow> of_shapes Ts vs | _ \<Rightarrow> False)"
| "of_shape (Optional T) v =
     (case v of Opt p \<Rightarrow> (case p of None \<Rightarrow> True | Some x \<Rightarrow> of_shape T x) | _ \<Rightarrow> False)"
| "of_shapes [] vs = (vs = [])"
| "of_shapes (T # Ts) vs =
     (case vs of [] \<Rightarrow> False | v # vs' \<Rightarrow> of_shape T v \<and> of_shapes Ts vs')"


subsection \<open>The bytes of an encoding\<close>

text \<open>
  \<open>wire T v\<close> is what the encoder writes for \<open>v\<close> on a new stream that never fills: the
  bytes, or the error it stops with. \<open>emit\<close> replays such an outcome on any stream, and an
  operation on streams is \<open>uniform\<close> when it is the replay of one outcome.
\<close>

definition wire :: "shape \<Rightarrow> val \<Rightarrow> error + byte list" where
  "wire T v = (case encode T v fresh of Inl e \<Rightarrow> Inl e | Inr w \<Rightarrow> Inr (out w))"

text \<open>The same for the loop over the elements of a container.\<close>

definition wire_each :: "shape \<Rightarrow> val list \<Rightarrow> error + byte list" where
  "wire_each T xs = (case encode_each T xs fresh of Inl e \<Rightarrow> Inl e | Inr w \<Rightarrow> Inr (out w))"

definition emit :: "error + byte list \<Rightarrow> writer \<Rightarrow> error + writer" where
  "emit r w = (case r of Inl e \<Rightarrow> Inl e | Inr bs \<Rightarrow> Inr (stream_write bs w))"

definition uniform :: "(writer \<Rightarrow> error + writer) \<Rightarrow> bool" where
  "uniform f = (\<exists>r. \<forall>u. f u = emit r u)"

text \<open>One encoding after another.\<close>

definition join :: "error + byte list \<Rightarrow> error + byte list \<Rightarrow> error + byte list" where
  "join r1 r2 =
     (case r1 of
        Inl e \<Rightarrow> Inl e
      | Inr bs \<Rightarrow> (case r2 of Inl e \<Rightarrow> Inl e | Inr cs \<Rightarrow> Inr (bs @ cs)))"

subsection \<open>Inserting one element after another\<close>

text \<open>
  What the loops of the set and map decoders do with the elements \<open>ds\<close> they have read:
  \<^verbatim>\<open>insert\<close>, or \<^verbatim>\<open>emplace\<close>, of the first into the container, then of the
  second into what that gave, and so on.
\<close>

definition insert_all :: "env \<Rightarrow> shape \<Rightarrow> val list \<Rightarrow> val list \<Rightarrow> val list" where
  "insert_all e C ds xs = foldl (\<lambda>a x. set_insert e C x a) xs ds"

definition emplace_all :: "env \<Rightarrow> shape \<Rightarrow> val list \<Rightarrow> val list \<Rightarrow> val list" where
  "emplace_all e C ds xs = foldl (\<lambda>a kv. map_emplace e C kv a) xs ds"

subsection \<open>Round trips\<close>

text \<open>
  A destination as a constructor leaves it: value-initialised, or default-initialised.
  \<open>round_trips e T v\<close>: whenever the encoder completes on the object \<open>v\<close> of type \<open>T\<close>,
  decoding its bytes into such a destination consumes exactly those bytes and yields an object
  with the same value.
\<close>

definition blank :: "env \<Rightarrow> shape \<Rightarrow> val \<Rightarrow> bool" where
  "blank e T d = (d = value_init T \<or> d = default_init e T)"

definition round_trips :: "env \<Rightarrow> shape \<Rightarrow> val \<Rightarrow> bool" where
  "round_trips e T v =
     (of_shape T v \<longrightarrow>
      (\<forall>bs rest d. wire T v = Inr bs \<longrightarrow> blank e T d \<longrightarrow>
         (\<exists>v'. decode e T d (source (bs @ rest)) = (v', source rest) \<and> same T v v')))"

text \<open>
  The environments in which no container takes two keys for equivalent unless they have
  the same object representation. So it is with keys of the integer and character types, with strings and
  containers of them, and with smart pointers, which are compared by address; not with
  floating-point keys, where \<open>-0.0\<close> and \<open>+0.0\<close> are equivalent.
\<close>

definition discerning :: "env \<Rightarrow> bool" where
  "discerning e = (\<forall>C a b. equivalent e C a b \<longrightarrow> a = b)"

subsection \<open>Encoding and decoding again\<close>

text \<open>
  Encoding an object onto a new stream, and decoding the bytes written into a
  value-initialised destination; when the encoder does not complete there is nothing to
  decode.
\<close>

definition transcode :: "env \<Rightarrow> shape \<Rightarrow> val \<Rightarrow> error + val" where
  "transcode e T v =
     (case wire T v of
        Inl err \<Rightarrow> Inl err
      | Inr bs \<Rightarrow> Inr (fst (decode e T (value_init T) (source bs))))"

text \<open>An object that holds no null smart pointer, at any depth.\<close>

fun null_free :: "shape \<Rightarrow> val \<Rightarrow> bool"
  and null_free_slots :: "shape list \<Rightarrow> val list \<Rightarrow> bool"
where
  "null_free (Pod k) v = True"
| "null_free (UniquePtr T) v = (case payload v of None \<Rightarrow> False | Some x \<Rightarrow> null_free T x)"
| "null_free (SharedPtr T) v = (case payload v of None \<Rightarrow> False | Some x \<Rightarrow> null_free T x)"
| "null_free (BasicString k) v = True"
| "null_free (Vector T) v = list_all (\<lambda>x. null_free T x) (elems v)"
| "null_free (Array T n) v = list_all (\<lambda>x. null_free T x) (elems v)"
| "null_free (ListT T) v = list_all (\<lambda>x. null_free T x) (elems v)"
| "null_free (Deque T) v = list_all (\<lambda>x. null_free T x) (elems v)"
| "null_free (SetT T) v = list_all (\<lambda>x. null_free T x) (elems v)"
| "null_free (UnorderedSet T) v = list_all (\<lambda>x. null_free T x) (elems v)"
| "null_free (PairT A B) v = (null_free A (first v) \<and> null_free B (second v))"
| "null_free (MapT K V) v =
     list_all (\<lambda>x. null_free K (first x) \<and> null_free V (second x)) (elems v)"
| "null_free (UnorderedMap K V) v =
     list_all (\<lambda>x. null_free K (first x) \<and> null_free V (second x)) (elems v)"
| "null_free (Tuple Ts) v = null_free_slots Ts (slots v)"
| "null_free (Optional T) v = (case payload v of None \<Rightarrow> True | Some x \<Rightarrow> null_free T x)"
| "null_free_slots [] vs = True"
| "null_free_slots (T # Ts) vs =
     (case vs of [] \<Rightarrow> False | v # vs' \<Rightarrow> null_free T v \<and> null_free_slots Ts vs')"

subsection \<open>Streams cut short\<close>

text \<open>
  \<open>cut m r\<close> is the stream \<open>r\<close> with its input ending after \<open>m\<close> bytes. An operation
  \<open>f\<close> on input streams is \<open>careful\<close> when, run on a good stream cut short, it either
  comes back failed, or does what it does on the whole stream: the same result, after the
  same number \<open>c\<close> of bytes, none of them beyond the cut. It is \<open>sticky\<close> when it leaves
  a failed stream failed.
\<close>

definition cut :: "nat \<Rightarrow> reader \<Rightarrow> reader" where
  "cut m r = r\<lparr>inp := take m (inp r)\<rparr>"




section \<open>Properties\<close>

subsection \<open>The loops, one step at a time\<close>

text \<open>
  The equations of the counting loops and of the recursion on \<^verbatim>\<open>id\<close> call themselves
  under a test; they are used through the two lemmas of each loop: a step, and the exit.
\<close>

declare encode_tuple.simps [simp del]
declare decode_push.simps [simp del]
declare decode_insert.simps [simp del]
declare decode_emplace.simps [simp del]
declare decode_tuple.simps [simp del]

lemma encode_tuple_step:
  "idx < length Ts \<Longrightarrow> encode_tuple idx Ts vs w =
     (case encode (Ts ! idx) (vs ! idx) w of
        Inl e \<Rightarrow> Inl e
      | Inr w1 \<Rightarrow> encode_tuple (Suc idx) Ts vs w1)"
  by (subst encode_tuple.simps) (simp split: sum.split)

lemma encode_tuple_done [simp]: "\<not> idx < length Ts \<Longrightarrow> encode_tuple idx Ts vs w = Inr w"
  by (subst encode_tuple.simps) simp

lemma decode_tuple_step:
  "idx < length Ts \<Longrightarrow> decode_tuple e idx Ts vs r =
     (case decode e (Ts ! idx) (vs ! idx) r of
        (x, r1) \<Rightarrow> decode_tuple e (Suc idx) Ts (vs[idx := x]) r1)"
  by (subst decode_tuple.simps) simp

lemma decode_tuple_done [simp]: "\<not> idx < length Ts \<Longrightarrow> decode_tuple e idx Ts vs r = (vs, r)"
  by (subst decode_tuple.simps) simp

lemma decode_push_step:
  "i < s \<Longrightarrow> decode_push e T i s xs r =
     (case decode e T (value_init T) r of
        (x, r1) \<Rightarrow> decode_push e T (Suc i) s (xs @ [x]) r1)"
  by (subst decode_push.simps) simp

lemma decode_push_done [simp]: "\<not> i < s \<Longrightarrow> decode_push e T i s xs r = (xs, r)"
  by (subst decode_push.simps) simp

lemma decode_insert_step:
  "i < s \<Longrightarrow> decode_insert e C T i s xs r =
     (case decode e T (default_init e T) r of
        (x, r1) \<Rightarrow> decode_insert e C T (Suc i) s (set_insert e C x xs) r1)"
  by (subst decode_insert.simps) simp

lemma decode_insert_done [simp]: "\<not> i < s \<Longrightarrow> decode_insert e C T i s xs r = (xs, r)"
  by (subst decode_insert.simps) simp

lemma decode_emplace_step:
  "i < s \<Longrightarrow> decode_emplace e C K V i s xs r =
     (case decode e (PairT K V) (value_init (PairT K V)) r of
        (kv, r1) \<Rightarrow> decode_emplace e C K V (Suc i) s (map_emplace e C kv xs) r1)"
  by (subst decode_emplace.simps) simp

lemma decode_emplace_done [simp]: "\<not> i < s \<Longrightarrow> decode_emplace e C K V i s xs r = (xs, r)"
  by (subst decode_emplace.simps) simp

subsection \<open>Representations and stream primitives\<close>

lemma length_le_bytes [simp]: "length (le_bytes k n) = k"
  by (induction k arbitrary: n) simp_all

lemma le_nat_le_bytes: "le_nat (le_bytes k n) = n mod 256 ^ k"
proof (induction k arbitrary: n)
  case 0
  show ?case by simp
next
  case (Suc k)
  have "unat (of_nat (n mod 256) :: byte) = n mod 256"
    by (simp add: unat_of_nat)
  then show ?case
    using Suc [of "n div 256"] by (simp add: mod_mult2_eq)
qed

lemma le_bytes_0: "le_bytes k 0 = replicate k 0"
  by (induction k) simp_all

lemma length_size_rep [simp]: "length (size_rep n) = 8"
  by (simp add: size_rep_def)

lemma le_nat_size_rep: "le_nat (size_rep n) = n mod 2 ^ 64"
  by (simp add: size_rep_def le_nat_le_bytes)

lemma size_rep_0: "size_rep 0 = replicate 8 0"
  by (simp add: size_rep_def le_bytes_0)

lemma stream_write_Nil [simp]: "stream_write [] w = w"
  by (simp add: stream_write_def split: option.split)

lemma stream_write_append: "stream_write (a @ b) w = stream_write b (stream_write a w)"
  by (auto simp: stream_write_def split: option.split)

lemma stream_read_source:
  "stream_read (length bs) buf (source (bs @ rest)) = (bs @ drop (length bs) buf, source rest)"
  by (simp add: stream_read_def source_def)

lemma uninit_length [simp]: "length (uninit e n) = n"
  by (simp add: uninit_def)

lemma read_flag [simp]:
  "stream_read (Suc 0) (uninit e (Suc 0)) (source (b # rest)) = ([b], source rest)"
  using stream_read_source [of "[b]" "uninit e (Suc 0)" rest] by simp

lemma read_size [simp]:
  "stream_read 8 (uninit e 8) (source (size_rep n @ rest)) = (size_rep n, source rest)"
  using stream_read_source [of "size_rep n" "uninit e 8" rest] by simp

lemma le_nat_zeros [simp]: "le_nat (replicate k 0) = 0"
  by (induction k) simp_all

lemma read_size_0 [simp]:
  "stream_read 8 (uninit e 8) (source (replicate 8 0 @ rest)) = (replicate 8 0, source rest)"
  using read_size [of e 0 rest] by (simp only: size_rep_0)

lemma le_bytes_numeral [simp]:
  "le_bytes (numeral k) n = of_nat (n mod 256) # le_bytes (pred_numeral k) (n div 256)"
  unfolding numeral_eq_Suc [of k] by (rule le_bytes.simps)

lemma size_rep_3: "size_rep (Suc (Suc (Suc 0))) = [3, 0, 0, 0, 0, 0, 0, 0]"
  by (simp add: size_rep_def)

lemma int_rep_456: "int_rep 456 = [0xC8, 1, 0, 0]"
  by (simp add: int_rep_def)

lemma int_rep_7890: "int_rep 7890 = [0xD2, 0x1E, 0, 0]"
  by (simp add: int_rep_def)

lemma int_rep_7730: "int_rep 7730 = [0x32, 0x1E, 0, 0]"
  by (simp add: int_rep_def)

subsection \<open>Every encoder writes the same bytes on every stream\<close>

lemma out_write_fresh [simp]: "out (stream_write bs fresh) = bs"
  by (simp add: stream_write_def fresh_def)

lemma emit_simps [simp]:
  "emit (Inl e) w = Inl e"
  "emit (Inr bs) w = Inr (stream_write bs w)"
  by (simp_all add: emit_def)

lemma uniform_ret: "uniform (\<lambda>u. Inr (stream_write bs u))"
  unfolding uniform_def by (rule exI [of _ "Inr bs"]) simp

lemma uniform_id: "uniform (\<lambda>u. Inr u)"
  unfolding uniform_def by (rule exI [of _ "Inr []"]) simp

lemma uniform_err: "uniform (\<lambda>u. Inl e)"
  unfolding uniform_def by (rule exI [of _ "Inl e"]) simp

lemma uniform_pre:
  assumes "uniform f"
  shows "uniform (\<lambda>u. f (stream_write bs u))"
proof -
  from assms obtain r where r: "\<And>u. f u = emit r u"
    unfolding uniform_def by blast
  show ?thesis
  proof (cases r)
    case (Inl e)
    with r show ?thesis
      unfolding uniform_def by (intro exI [of _ "Inl e"]) simp
  next
    case (Inr cs)
    with r show ?thesis
      unfolding uniform_def by (intro exI [of _ "Inr (bs @ cs)"]) (simp add: stream_write_append)
  qed
qed

lemma uniform_seq:
  assumes f: "uniform f"
    and g: "\<And>b. f w = Inr b \<Longrightarrow> uniform g"
  shows "uniform (\<lambda>u. case f u of Inl e \<Rightarrow> Inl e | Inr w1 \<Rightarrow> g w1)"
proof -
  from f obtain r where r: "\<And>u. f u = emit r u"
    unfolding uniform_def by blast
  show ?thesis
  proof (cases r)
    case (Inl e)
    with r show ?thesis
      unfolding uniform_def by (intro exI [of _ "Inl e"]) simp
  next
    case (Inr cs)
    with r have "f w = Inr (stream_write cs w)"
      by simp
    then have "uniform g"
      by (rule g)
    then have "uniform (\<lambda>u. g (stream_write cs u))"
      by (rule uniform_pre)
    moreover have "(\<lambda>u. case f u of Inl e \<Rightarrow> Inl e | Inr w1 \<Rightarrow> g w1) = (\<lambda>u. g (stream_write cs u))"
      using r Inr by (intro ext) simp
    ultimately show ?thesis
      by simp
  qed
qed

lemma encode_uniform:
  fixes w :: writer
  shows "uniform (encode T v)"
    and "uniform (encode_each T' xs)"
    and "uniform (encode_tuple i Ts vs)"
proof (induction T v w and T' xs w and i Ts vs w rule: encode_encode_each_encode_tuple.induct)
  case (1 k v w)
  have "encode (Pod k) v = (\<lambda>u. Inr (stream_write (bytes v) u))"
    by (intro ext) simp
  then show ?case
    by (simp only: uniform_ret)
next
  case (2 T v w)
  show ?case
  proof (cases "payload v")
    case None
    then have "encode (UniquePtr T) v = (\<lambda>u. Inl NullDereference)"
      by (intro ext) simp
    then show ?thesis
      by (simp only: uniform_err)
  next
    case (Some x)
    then have "encode (UniquePtr T) v = (\<lambda>u. encode T x (stream_write (bool_rep True) u))"
      by (intro ext) simp
    moreover have "uniform (encode T x)"
      using 2 Some by simp
    ultimately show ?thesis
      by (simp only: uniform_pre)
  qed
next
  case (3 T v w)
  show ?case
  proof (cases "payload v")
    case None
    then have "encode (SharedPtr T) v = (\<lambda>u. Inl NullDereference)"
      by (intro ext) simp
    then show ?thesis
      by (simp only: uniform_err)
  next
    case (Some x)
    then have "encode (SharedPtr T) v = (\<lambda>u. encode T x (stream_write (bool_rep True) u))"
      by (intro ext) simp
    moreover have "uniform (encode T x)"
      using 3 Some by simp
    ultimately show ?thesis
      by (simp only: uniform_pre)
  qed
next
  case (4 k v w)
  have "encode (BasicString k) v =
      (\<lambda>u. Inr (stream_write (size_rep (length (elems v)) @
         (if length (elems v) > 0 then take (length (elems v) * k) (data (elems v)) else [])) u))"
    by (intro ext) (simp add: Let_def stream_write_append)
  then show ?case
    by (simp only: uniform_ret)
next
  case (5 T v w)
  show ?case
  proof (cases "serializeAsPOD T")
    case True
    then have "encode (Vector T) v =
      (\<lambda>u. Inr (stream_write (size_rep (length (elems v)) @
         (if length (elems v) > 0 then take (sizeof T * length (elems v)) (data (elems v)) else [])) u))"
      by (intro ext) (simp add: Let_def stream_write_append)
    then show ?thesis
      by (simp only: uniform_ret)
  next
    case False
    then have "encode (Vector T) v =
        (\<lambda>u. encode_each T (elems v) (stream_write (size_rep (length (elems v))) u))"
      by (intro ext) (simp add: Let_def)
    moreover have "uniform (encode_each T (elems v))"
      using 5 False by simp
    ultimately show ?thesis
      by (simp only: uniform_pre)
  qed
next
  case (6 T n v w)
  show ?case
  proof (cases "0 < n \<and> \<not> serializeAsPOD T")
    case True
    then have "encode (Array T n) v = encode_each T (elems v)"
      by (intro ext) simp
    then show ?thesis
      using 6 True by simp
  next
    case False
    then have "encode (Array T n) v =
        (\<lambda>u. Inr (stream_write (if n > 0 then take (sizeof T * n) (data (elems v)) else []) u))"
      by (intro ext) auto
    then show ?thesis
      by (simp only: uniform_ret)
  qed
next
  case (7 T v w)
  have "encode (ListT T) v = (\<lambda>u. encode_each T (elems v) (stream_write (size_rep (length (elems v))) u))"
    by (intro ext) simp
  then show ?case
    using 7 by (simp only: uniform_pre)
next
  case (8 T v w)
  have "encode (Deque T) v = (\<lambda>u. encode_each T (elems v) (stream_write (size_rep (length (elems v))) u))"
    by (intro ext) simp
  then show ?case
    using 8 by (simp only: uniform_pre)
next
  case (9 T v w)
  have "encode (SetT T) v = (\<lambda>u. encode_each T (elems v) (stream_write (size_rep (length (elems v))) u))"
    by (intro ext) simp
  then show ?case
    using 9 by (simp only: uniform_pre)
next
  case (10 T v w)
  have "encode (UnorderedSet T) v = (\<lambda>u. encode_each T (elems v) (stream_write (size_rep (length (elems v))) u))"
    by (intro ext) simp
  then show ?case
    using 10 by (simp only: uniform_pre)
next
  case (11 A B v w)
  have "encode (PairT A B) v =
      (\<lambda>u. case encode A (first v) u of Inl e \<Rightarrow> Inl e | Inr w1 \<Rightarrow> encode B (second v) w1)"
    by (intro ext) simp
  moreover have "uniform (\<lambda>u. case encode A (first v) u of Inl e \<Rightarrow> Inl e
      | Inr w1 \<Rightarrow> encode B (second v) w1)"
    using 11 by (rule uniform_seq)
  ultimately show ?case
    by simp
next
  case (12 K V v w)
  have "encode (MapT K V) v =
      (\<lambda>u. encode_each (PairT K V) (elems v) (stream_write (size_rep (length (elems v))) u))"
    by (intro ext) simp
  then show ?case
    using 12 by (simp only: uniform_pre)
next
  case (13 K V v w)
  have "encode (UnorderedMap K V) v =
      (\<lambda>u. encode_each (PairT K V) (elems v) (stream_write (size_rep (length (elems v))) u))"
    by (intro ext) simp
  then show ?case
    using 13 by (simp only: uniform_pre)
next
  case (14 Ts v w)
  have "encode (Tuple Ts) v = encode_tuple 0 Ts (slots v)"
    by (intro ext) simp
  then show ?case
    using 14 by simp
next
  case (15 T v w)
  show ?case
  proof (cases "payload v")
    case None
    then have "encode (Optional T) v = (\<lambda>u. Inr (stream_write (bool_rep False) u))"
      by (intro ext) simp
    then show ?thesis
      by (simp only: uniform_ret)
  next
    case (Some x)
    then have "encode (Optional T) v = (\<lambda>u. encode T x (stream_write (bool_rep True) u))"
      by (intro ext) simp
    moreover have "uniform (encode T x)"
      using 15 Some by simp
    ultimately show ?thesis
      by (simp only: uniform_pre)
  qed
next
  case (16 T w)
  have "encode_each T [] = (\<lambda>u. Inr u)"
    by (intro ext) simp
  then show ?case
    by (simp only: uniform_id)
next
  case (17 T x xs w)
  have "encode_each T (x # xs) =
      (\<lambda>u. case encode T x u of Inl e \<Rightarrow> Inl e | Inr w1 \<Rightarrow> encode_each T xs w1)"
    by (intro ext) simp
  moreover have "uniform (\<lambda>u. case encode T x u of Inl e \<Rightarrow> Inl e
      | Inr w1 \<Rightarrow> encode_each T xs w1)"
    using 17 by (rule uniform_seq)
  ultimately show ?case
    by simp
next
  case (18 idx Ts vs w)
  show ?case
  proof (cases "idx < length Ts")
    case True
    then have "encode_tuple idx Ts vs =
        (\<lambda>u. case encode (Ts ! idx) (vs ! idx) u of Inl e \<Rightarrow> Inl e
          | Inr w1 \<Rightarrow> encode_tuple (idx + 1) Ts vs w1)"
      by (intro ext) (simp add: encode_tuple_step split: sum.split)
    moreover have "uniform (\<lambda>u. case encode (Ts ! idx) (vs ! idx) u of Inl e \<Rightarrow> Inl e
          | Inr w1 \<Rightarrow> encode_tuple (idx + 1) Ts vs w1)"
      using 18 True by (intro uniform_seq) auto
    ultimately show ?thesis
      by simp
  next
    case False
    then have "encode_tuple idx Ts vs = (\<lambda>u. Inr u)"
      by (intro ext) simp
    then show ?thesis
      by (simp only: uniform_id)
  qed
qed

lemma encode_wire: "encode T v w = emit (wire T v) w"
proof -
  from encode_uniform(1) [of T v] obtain r where r: "\<And>u. encode T v u = emit r u"
    unfolding uniform_def by blast
  have "wire T v = r"
    by (cases r) (simp_all add: wire_def r)
  with r show ?thesis
    by simp
qed

subsection \<open>Smart pointers and optionals\<close>

text \<open>
  C2. The claim: encoding a null \<^verbatim>\<open>std::unique_ptr<T>\<close> or
  \<^verbatim>\<open>std::shared_ptr<T>\<close> writes one flag byte 0, no payload, and does not dereference
  the pointer. The two pointer overloads write the flag and then evaluate
  \<^verbatim>\<open>writer << *object\<close> without a test (the optional overload tests
  \<^verbatim>\<open>hasValue\<close> first): for every payload type and every stream, encoding a null
  pointer ends in the dereference of the null pointer.
\<close>

theorem null_pointer_encode:
  "encode (UniquePtr T) (Ptr None) w = Inl NullDereference \<and>
   encode (SharedPtr T) (Ptr None) w = Inl NullDereference"
  by simp

text \<open>
  C3, as the code has it. Decoding a flag byte 0 into a smart pointer consumes that byte and
  nothing else and leaves the destination as it was: a destination that was null stays null,
  one that owned an object goes on owning it. Decoding a flag byte 1 value-initialises a new
  payload object, decodes into it and makes the destination own it, whatever the destination
  held before.
\<close>

theorem pointer_decode:
  "decode e (UniquePtr T) v (source (0 # rest)) = (v, source rest) \<and>
   decode e (SharedPtr T) v (source (0 # rest)) = (v, source rest) \<and>
   decode e (UniquePtr T) v (source (1 # rest)) =
     (case decode e T (value_init T) (source rest) of (x, r) \<Rightarrow> (Ptr (Some x), r)) \<and>
   decode e (SharedPtr T) v (source (1 # rest)) =
     (case decode e T (value_init T) (source rest) of (x, r) \<Rightarrow> (Ptr (Some x), r))"
  by (simp add: as_bool_def)

text \<open>
  C3 as claimed fails: a \<^verbatim>\<open>std::unique_ptr<int>\<close> that owns the value 5 still owns
  it after a flag byte 0 has been decoded into it.
\<close>

theorem pointer_decode_counterexample:
  "fst (decode zero_env (UniquePtr (Pod 4)) (Ptr (Some (Obj (int_rep 5)))) (source [0]))
     \<noteq> Ptr None"
  by (simp add: as_bool_def)

text \<open>
  C4, as the code has it. Encoding an absent \<^verbatim>\<open>std::optional<T>\<close> writes the one flag
  byte 0 and nothing else; decoding that byte leaves every destination as it was (an absent
  destination absent, an engaged one engaged) and consumes no further byte.
\<close>

theorem absent_optional:
  "encode (Optional T) (Opt None) w = Inr (stream_write [0] w) \<and>
   decode e (Optional T) v (source (0 # rest)) = (v, source rest)"
  by (simp add: bool_rep_def as_bool_def)

text \<open>
  C4 as claimed fails: a \<^verbatim>\<open>std::optional<int>\<close> that holds 5 is still engaged after
  the flag byte 0 has been decoded into it.
\<close>

theorem absent_optional_counterexample:
  "fst (decode zero_env (Optional (Pod 4)) (Opt (Some (Obj (int_rep 5)))) (source [0]))
     \<noteq> Opt None"
  by (simp add: as_bool_def)

subsection \<open>Empty containers\<close>

text \<open>
  C5, as the code has it. Encoding an empty string, vector, list, deque, set or map writes
  the 8-byte length field with value 0 and nothing else. Decoding a stream whose count
  field is 0 consumes those 8 bytes and no more and leaves the destination as it was: empty
  if it was empty, and with all its elements if it had any.
\<close>

theorem empty_container:
  "S \<in> {BasicString k, Vector T, ListT T, Deque T, SetT T, UnorderedSet T,
          MapT K V, UnorderedMap K V} \<Longrightarrow>
   encode S (Seq []) w = Inr (stream_write (replicate 8 0) w) \<and>
   decode e S (Seq xs) (source (replicate 8 0 @ rest)) = (Seq xs, source rest)"
  by (auto simp: size_rep_0 Let_def)

theorem empty_container_witness:
  "encode (Vector (Pod 4)) (Seq []) fresh = Inr (stream_write (replicate 8 0) fresh) \<and>
   decode zero_env (Vector (Pod 4)) (Seq [Obj (int_rep 5)]) (source (replicate 8 0 @ [7]))
     = (Seq [Obj (int_rep 5)], source [7])"
  using empty_container [of "Vector (Pod 4)" 0 "Pod 4" "Pod 4" "Pod 4" fresh zero_env
      "[Obj (int_rep 5)]" "[7]"]
  by simp

text \<open>
  C5 as claimed fails: a \<^verbatim>\<open>std::vector<int>\<close> that holds the element 5 is not empty
  after a count of 0 has been decoded into it.
\<close>

theorem empty_container_counterexample:
  "fst (decode zero_env (Vector (Pod 4)) (Seq [Obj (int_rep 5)]) (source (replicate 8 0)))
     \<noteq> Seq []"
  using read_size_0 [of zero_env "[]"] by simp

subsection \<open>The scenario of the specification\<close>

text \<open>
  C7, as the code has it. With an 8-byte \<^verbatim>\<open>size_t\<close> and a 4-byte \<^verbatim>\<open>int\<close>,
  encoding the \<^verbatim>\<open>std::vector<std::optional<int>>\<close> value [absent, 456, 7890] writes
  03 00 00 00 00 00 00 00 (the count), 00 (absent), 01 (present) C8 01 00 00 (456),
  01 (present) D2 1E 00 00 (7890): each flag comes before its payload, and 7890 is 0x1ED2.
\<close>

theorem scenario_bytes:
  "encode (Vector (Optional (Pod 4)))
     (Seq [Opt None, Opt (Some (Obj (int_rep 456))), Opt (Some (Obj (int_rep 7890)))]) fresh
   = Inr \<lparr>out = [3, 0, 0, 0, 0, 0, 0, 0,  0,  1, 0xC8, 1, 0, 0,  1, 0xD2, 0x1E, 0, 0],
           room = None, badbit = False\<rparr>"
  by (simp add: fresh_def stream_write_def bool_rep_def size_rep_3 int_rep_456 int_rep_7890)

text \<open>
  C7 as claimed fails: the stream is not the one the specification lists, which has each
  flag after its payload and the bytes 32 1E 00 00 (the value 7730) for 7890.
\<close>

theorem scenario_bytes_counterexample:
  "encode (Vector (Optional (Pod 4)))
     (Seq [Opt None, Opt (Some (Obj (int_rep 456))), Opt (Some (Obj (int_rep 7890)))]) fresh
   \<noteq> Inr \<lparr>out = [3, 0, 0, 0, 0, 0, 0, 0,  0,  0xC8, 1, 0, 0, 1,  0x32, 0x1E, 0, 0, 1],
           room = None, badbit = False\<rparr>"
  by (simp add: fresh_def stream_write_def bool_rep_def size_rep_3 int_rep_456 int_rep_7890)

subsection \<open>The bulk path of a vector\<close>

lemma out_write_write_fresh [simp]:
  "out (stream_write cs (stream_write bs fresh)) = bs @ cs"
  by (simp add: stream_write_append [symmetric])

lemma encode_each_pod: "encode_each (Pod k) xs w = Inr (stream_write (data xs) w)"
proof (induction xs arbitrary: w)
  case Nil
  show ?case by (simp add: data_def)
next
  case (Cons x xs)
  have "data (x # xs) = bytes x @ data xs"
    by (simp add: data_def)
  then show ?case
    using Cons by (simp add: stream_write_append)
qed

lemma length_data: "list_all (is_obj k) xs \<Longrightarrow> length (data xs) = k * length xs"
  by (induction xs) (auto simp: data_def is_obj_def split: val.splits)

lemma wire_pod: "wire (Pod k) x = Inr (bytes x)"
  by (simp add: wire_def)

lemma concat_wire_pod: "concat (map (\<lambda>x. projr (wire (Pod k) x)) xs) = data xs"
  by (simp add: wire_pod data_def)

text \<open>
  C6. For a fundamental element type of \<open>k\<close> bytes and a vector of such objects, the vector
  encoder, which writes the length and then the storage in one block, does on every stream
  what writing the length and then encoding the elements one by one with the scalar encoder
  does; and the bytes of the vector are the length field followed by the bytes of the
  elements' own encodings, in order.
\<close>

theorem bulk_path_is_elementwise:
  assumes "list_all (of_shape (Pod k)) xs"
  shows "encode (Vector (Pod k)) (Seq xs) w
           = encode_each (Pod k) xs (stream_write (size_rep (length xs)) w) \<and>
         wire (Vector (Pod k)) (Seq xs)
           = Inr (size_rep (length xs) @ concat (map (\<lambda>x. projr (wire (Pod k) x)) xs))"
proof -
  from assms have "list_all (is_obj k) xs"
    by (simp add: list_all_iff)
  then have len: "take (k * length xs) (data xs) = data xs"
    by (simp add: length_data)
  have nil: "xs = [] \<Longrightarrow> data xs = []"
    by (simp add: data_def)
  have bulk: "encode (Vector (Pod k)) (Seq xs) u
      = Inr (stream_write (data xs) (stream_write (size_rep (length xs)) u))" for u
    using len nil by (cases "xs = []") (simp_all add: Let_def)
  have c1: "encode (Vector (Pod k)) (Seq xs) w
      = encode_each (Pod k) xs (stream_write (size_rep (length xs)) w)"
    by (simp only: bulk encode_each_pod)
  have c2: "wire (Vector (Pod k)) (Seq xs)
      = Inr (size_rep (length xs) @ concat (map (\<lambda>x. projr (wire (Pod k) x)) xs))"
    unfolding wire_def [of "Vector (Pod k)"] bulk concat_wire_pod by simp
  from c1 c2 show ?thesis
    by (rule conjI)
qed

theorem bulk_path_is_elementwise_witness:
  "list_all (of_shape (Pod 4)) [Obj (int_rep 456), Obj (int_rep 7890)] \<and>
   encode (Vector (Pod 4)) (Seq [Obj (int_rep 456), Obj (int_rep 7890)]) fresh
     = encode_each (Pod 4) [Obj (int_rep 456), Obj (int_rep 7890)]
         (stream_write (size_rep (length [Obj (int_rep 456), Obj (int_rep 7890)])) fresh) \<and>
   wire (Vector (Pod 4)) (Seq [Obj (int_rep 456), Obj (int_rep 7890)])
     = Inr (size_rep (length [Obj (int_rep 456), Obj (int_rep 7890)]) @
         concat (map (\<lambda>x. projr (wire (Pod 4) x)) [Obj (int_rep 456), Obj (int_rep 7890)]))"
proof -
  have h: "list_all (of_shape (Pod 4)) [Obj (int_rep 456), Obj (int_rep 7890)]"
    by (simp add: is_obj_def int_rep_456 int_rep_7890)
  from h bulk_path_is_elementwise [OF h, of fresh] show ?thesis
    by (rule conjI)
qed

subsection \<open>Pairs and tuples\<close>

lemma encode_tuple_shift:
  "encode_tuple (Suc i) (T # Ts) (v # vs) w = encode_tuple i Ts vs w"
proof (induction "length Ts - i" arbitrary: i w)
  case 0
  then show ?case by simp
next
  case (Suc n)
  then have "n = length Ts - Suc i" and "i < length Ts"
    by simp_all
  then show ?case
    using Suc(1) [of "Suc i"] by (simp add: encode_tuple_step split: sum.split)
qed

lemma decode_tuple_shift:
  "decode_tuple e (Suc i) (T # Ts) (v # vs) r =
     (case decode_tuple e i Ts vs r of (vs', r') \<Rightarrow> (v # vs', r'))"
proof (induction "length Ts - i" arbitrary: i vs r)
  case 0
  then show ?case by simp
next
  case (Suc n)
  then have "n = length Ts - Suc i" and "i < length Ts"
    by simp_all
  then show ?case
    using Suc(1) [of "Suc i"] by (simp add: decode_tuple_step split: prod.split)
qed

lemma wire_join:
  assumes "\<And>u. f u = (case encode A a u of Inl e \<Rightarrow> Inl e | Inr w1 \<Rightarrow> encode B b w1)"
  shows "(case f fresh of Inl e \<Rightarrow> Inl e | Inr w \<Rightarrow> Inr (out w)) = join (wire A a) (wire B b)"
proof -
  have A: "encode A a u = emit (wire A a) u" for u
    by (rule encode_wire)
  have B: "encode B b u = emit (wire B b) u" for u
    by (rule encode_wire)
  show ?thesis
    by (cases "wire A a"; cases "wire B b") (simp_all add: assms A B join_def)
qed

lemma encode_tuple_cons:
  "encode (Tuple (T # Ts)) (Tup (v # vs)) w =
     (case encode T v w of Inl err \<Rightarrow> Inl err | Inr w1 \<Rightarrow> encode (Tuple Ts) (Tup vs) w1)"
  by (simp add: encode_tuple_step encode_tuple_shift split: sum.split)

lemma decode_tuple_cons:
  "decode e (Tuple (T # Ts)) (Tup (v # vs)) r =
     (case decode e T v r of (v', r1) \<Rightarrow>
        case decode e (Tuple Ts) (Tup vs) r1 of (t, r2) \<Rightarrow> (Tup (v' # slots t), r2))"
  by (simp add: decode_tuple_step decode_tuple_shift split: prod.split)

lemma wire_pair_join: "wire (PairT A B) (Pr a b) = join (wire A a) (wire B b)"
  unfolding wire_def [of "PairT A B"] by (rule wire_join) (simp split: sum.split)

lemma wire_tuple_cons:
  "wire (Tuple (T # Ts)) (Tup (v # vs)) = join (wire T v) (wire (Tuple Ts) (Tup vs))"
  unfolding wire_def [of "Tuple (T # Ts)"] by (rule wire_join) (rule encode_tuple_cons)

lemma wire_tuple_nil: "wire (Tuple []) (Tup []) = Inr []"
  by (simp add: wire_def fresh_def)

text \<open>
  C9. A pair is encoded and decoded first member first, then the second, and its bytes are
  those of the first followed by those of the second. A tuple is encoded and decoded slot 0
  first, then the tuple of the remaining slots, and its bytes are the bytes of slot 0 followed
  by those of the rest; the empty tuple writes and reads nothing. Nothing stands before,
  between or after the slots. The recursion on the slot index ends when the index is the
  number of slots: there it returns the stream, and the destination, as they are.
\<close>

theorem product_layout:
  "encode (PairT A B) (Pr a b) w =
     (case encode A a w of Inl err \<Rightarrow> Inl err | Inr w1 \<Rightarrow> encode B b w1) \<and>
   decode e (PairT A B) (Pr a b) r =
     (case decode e A a r of (a', r1) \<Rightarrow>
        case decode e B b r1 of (b', r2) \<Rightarrow> (Pr a' b', r2)) \<and>
   wire (PairT A B) (Pr a b) = join (wire A a) (wire B b) \<and>
   encode (Tuple (T # Ts)) (Tup (v # vs)) w =
     (case encode T v w of Inl err \<Rightarrow> Inl err | Inr w1 \<Rightarrow> encode (Tuple Ts) (Tup vs) w1) \<and>
   decode e (Tuple (T # Ts)) (Tup (v # vs)) r =
     (case decode e T v r of (v', r1) \<Rightarrow>
        case decode e (Tuple Ts) (Tup vs) r1 of (t, r2) \<Rightarrow> (Tup (v' # slots t), r2)) \<and>
   wire (Tuple (T # Ts)) (Tup (v # vs)) = join (wire T v) (wire (Tuple Ts) (Tup vs)) \<and>
   encode (Tuple []) (Tup []) w = Inr w \<and>
   decode e (Tuple []) (Tup []) r = (Tup [], r) \<and>
   wire (Tuple []) (Tup []) = Inr [] \<and>
   encode_tuple (length Ts) Ts vs w = Inr w \<and>
   decode_tuple e (length Ts) Ts vs r = (vs, r)"
proof -
  have p1: "encode (PairT A B) (Pr a b) w =
     (case encode A a w of Inl err \<Rightarrow> Inl err | Inr w1 \<Rightarrow> encode B b w1)"
    by (simp split: sum.split)
  have p2: "decode e (PairT A B) (Pr a b) r =
     (case decode e A a r of (a', r1) \<Rightarrow>
        case decode e B b r1 of (b', r2) \<Rightarrow> (Pr a' b', r2))"
    by simp
  have n1: "encode (Tuple []) (Tup []) w = Inr w"
    by simp
  have n2: "decode e (Tuple []) (Tup []) r = (Tup [], r)"
    by simp
  have t1: "encode_tuple (length Ts) Ts vs w = Inr w"
    by simp
  have t2: "decode_tuple e (length Ts) Ts vs r = (vs, r)"
    by simp
  show ?thesis
    by (intro conjI)
      (fact p1 p2 wire_pair_join encode_tuple_cons decode_tuple_cons wire_tuple_cons
        n1 n2 wire_tuple_nil t1 t2)+
qed

subsection \<open>Decoding into a container that has elements\<close>



lemma set_set_insert:
  "set (set_insert e C x xs) =
     (if list_ex (\<lambda>y. equivalent e C y x) xs then set xs else insert x (set xs))"
  by (auto simp: set_insert_def insert_at_def dest: in_set_takeD in_set_dropD)
    (metis Un_iff append_take_drop_id set_append)

lemma set_map_emplace:
  "set (map_emplace e C kv xs) =
     (if list_ex (\<lambda>y. equivalent e C (first y) (first kv)) xs then set xs
      else insert kv (set xs))"
  by (auto simp: map_emplace_def insert_at_def dest: in_set_takeD in_set_dropD)
    (metis Un_iff append_take_drop_id set_append)




lemma insert_all_Nil [simp]: "insert_all e C [] xs = xs"
  by (simp add: insert_all_def)

lemma insert_all_Cons [simp]:
  "insert_all e C (d # ds) xs = insert_all e C ds (set_insert e C d xs)"
  by (simp add: insert_all_def)

lemma emplace_all_Nil [simp]: "emplace_all e C [] xs = xs"
  by (simp add: emplace_all_def)

lemma emplace_all_Cons [simp]:
  "emplace_all e C (d # ds) xs = emplace_all e C ds (map_emplace e C d xs)"
  by (simp add: emplace_all_def)







lemma le_nat_size_rep_small: "n < 2 ^ 64 \<Longrightarrow> le_nat (size_rep n) = n"
  by (simp add: le_nat_size_rep)



text \<open>
  Three runs: a list and a set of one-byte integers that hold 7, and streams that carry 9,
  and 9 and 7; and a set of \<^verbatim>\<open>double\<close> that holds \<open>+0.0\<close>, under an equivalence that
  relates the two zeros, and a stream that carries \<open>-0.0\<close>: the set keeps its one element.
\<close>

lemma list_example:
  "decode zero_env (ListT (Pod 1)) (Seq [Obj [7]]) (source (size_rep 1 @ [9])) =
     (Seq [Obj [7], Obj [9]], source [])"
  by (simp add: le_nat_size_rep_small decode_push_step stream_read_def source_def)

lemma set_example:
  "decode zero_env (SetT (Pod 1)) (Seq [Obj [7]]) (source (size_rep 2 @ [9, 7])) =
     (Seq [Obj [7], Obj [9]], source [])"
  by (simp add: le_nat_size_rep_small decode_insert_step stream_read_def source_def
      set_insert_def insert_at_def zero_env_def uninit_def)

lemma signed_zero_example:
  "decode
     (zero_env\<lparr>equivalent := (\<lambda>C a b. a = b \<or>
        {a, b} = {Obj [0, 0, 0, 0, 0, 0, 0, 0], Obj [0, 0, 0, 0, 0, 0, 0, 0x80]})\<rparr>)
     (SetT (Pod 8)) (Seq [Obj [0, 0, 0, 0, 0, 0, 0, 0]])
     (source (size_rep 1 @ [0, 0, 0, 0, 0, 0, 0, 0x80])) =
     (Seq [Obj [0, 0, 0, 0, 0, 0, 0, 0]], source [])"
  by (simp add: le_nat_size_rep_small decode_insert_step stream_read_def source_def
      set_insert_def insert_at_def zero_env_def uninit_def)

section \<open>The round trip\<close>

subsection \<open>The bytes of each shape\<close>

lemma wire_eqI: "(\<And>u. encode T v u = emit r u) \<Longrightarrow> wire T v = r"
  by (cases r) (simp_all add: wire_def)

lemma wire_each_eqI: "(\<And>u. encode_each T xs u = emit r u) \<Longrightarrow> wire_each T xs = r"
  by (cases r) (simp_all add: wire_each_def)

lemma encode_each_wire: "encode_each T xs w = emit (wire_each T xs) w"
proof -
  from encode_uniform(2) [of T xs] obtain r where r: "\<And>u. encode_each T xs u = emit r u"
    unfolding uniform_def by blast
  then have "wire_each T xs = r"
    by (rule wire_each_eqI)
  with r show ?thesis
    by simp
qed

lemma emit_join: "emit (join r1 r2) u = (case emit r1 u of Inl e \<Rightarrow> Inl e | Inr w1 \<Rightarrow> emit r2 w1)"
  by (cases r1; cases r2) (simp_all add: join_def stream_write_append)

lemma join_Inr_iff:
  "join r1 r2 = Inr bs \<longleftrightarrow> (\<exists>a b. r1 = Inr a \<and> r2 = Inr b \<and> bs = a @ b)"
  by (cases r1; cases r2) (auto simp: join_def)

lemma wire_each_Nil [simp]: "wire_each T [] = Inr []"
  by (rule wire_each_eqI) simp

lemma wire_each_Cons: "wire_each T (x # xs) = join (wire T x) (wire_each T xs)"
  by (rule wire_each_eqI)
    (simp add: emit_join encode_wire [symmetric] encode_each_wire [symmetric] cong: sum.case_cong)

lemma wire_pointer:
  "wire (UniquePtr T) v = (case payload v of None \<Rightarrow> Inl NullDereference
     | Some x \<Rightarrow> join (Inr [1]) (wire T x))"
  "wire (SharedPtr T) v = (case payload v of None \<Rightarrow> Inl NullDereference
     | Some x \<Rightarrow> join (Inr [1]) (wire T x))"
  by (rule wire_eqI; cases "payload v";
      simp add: emit_join bool_rep_def encode_wire [symmetric])+

lemma wire_optional:
  "wire (Optional T) v = (case payload v of None \<Rightarrow> Inr [0]
     | Some x \<Rightarrow> join (Inr [1]) (wire T x))"
  by (rule wire_eqI; cases "payload v";
      simp add: emit_join bool_rep_def encode_wire [symmetric])

lemma wire_counted:
  "wire (ListT T) v = join (Inr (size_rep (length (elems v)))) (wire_each T (elems v))"
  "wire (Deque T) v = join (Inr (size_rep (length (elems v)))) (wire_each T (elems v))"
  "wire (SetT T) v = join (Inr (size_rep (length (elems v)))) (wire_each T (elems v))"
  "wire (UnorderedSet T) v = join (Inr (size_rep (length (elems v)))) (wire_each T (elems v))"
  "wire (MapT K V) v =
     join (Inr (size_rep (length (elems v)))) (wire_each (PairT K V) (elems v))"
  "wire (UnorderedMap K V) v =
     join (Inr (size_rep (length (elems v)))) (wire_each (PairT K V) (elems v))"
  "\<not> serializeAsPOD T \<Longrightarrow>
     wire (Vector T) v = join (Inr (size_rep (length (elems v)))) (wire_each T (elems v))"
  "\<not> serializeAsPOD T \<Longrightarrow> 0 < n \<Longrightarrow> wire (Array T n) v = wire_each T (elems v)"
  by (rule wire_eqI; simp add: emit_join Let_def encode_each_wire [symmetric])+

lemma wire_bulk:
  "wire (BasicString k) v = Inr (size_rep (length (elems v)) @
     (if length (elems v) > 0 then take (length (elems v) * k) (data (elems v)) else []))"
  "wire (Vector (Pod k)) v = Inr (size_rep (length (elems v)) @
     (if length (elems v) > 0 then take (k * length (elems v)) (data (elems v)) else []))"
  "wire (Array (Pod k) n) v = Inr (if n > 0 then take (k * n) (data (elems v)) else [])"
  "wire (Array T 0) v = Inr []"
  by (rule wire_eqI; simp add: Let_def stream_write_append)+

lemma wire_pair: "wire (PairT A B) v = join (wire A (first v)) (wire B (second v))"
  by (rule wire_eqI) (simp add: emit_join encode_wire [symmetric] cong: sum.case_cong)


subsection \<open>The natural equality is symmetric and transitive\<close>

lemma covers_iff:
  "covers R xs ys \<longleftrightarrow>
     (\<forall>x\<in>set xs. \<exists>y\<in>set ys. R x y) \<and> (\<forall>y\<in>set ys. \<exists>x\<in>set xs. R x y)"
  by (simp add: covers_def list_all_iff list_ex_iff)

lemma covers_sym:
  assumes "\<And>x y. x \<in> set xs \<Longrightarrow> y \<in> set ys \<Longrightarrow> R x y \<Longrightarrow> R y x" and "covers R xs ys"
  shows "covers R ys xs"
  using assms unfolding covers_iff by blast

lemma covers_trans:
  assumes "\<And>x y z. x \<in> set xs \<Longrightarrow> y \<in> set ys \<Longrightarrow> R x y \<Longrightarrow> R y z \<Longrightarrow> R x z"
    and "covers R xs ys" and "covers R ys zs"
  shows "covers R xs zs"
  using assms unfolding covers_iff by meson

lemma list_all2_sym_rule:
  assumes "\<And>x y. x \<in> set xs \<Longrightarrow> y \<in> set ys \<Longrightarrow> R x y \<Longrightarrow> R y x" and "list_all2 R xs ys"
  shows "list_all2 R ys xs"
  using assms by (auto simp: list_all2_conv_all_nth)

lemma list_all2_trans_rule:
  assumes "\<And>x y z. x \<in> set xs \<Longrightarrow> y \<in> set ys \<Longrightarrow> R x y \<Longrightarrow> R y z \<Longrightarrow> R x z"
    and "list_all2 R xs ys" and "list_all2 R ys zs"
  shows "list_all2 R xs zs"
  using assms by (simp add: list_all2_conv_all_nth) (metis nth_mem)

lemma same_sym:
  "same T a b \<Longrightarrow> same T b a"
  "same_slots Ts vs ws \<Longrightarrow> same_slots Ts ws vs"
proof (induction T a b and Ts vs ws rule: same_same_slots.induct)
  case (5 T a b)
  then show ?case by (auto intro: list_all2_sym_rule)
next
  case (6 T n a b)
  then show ?case by (auto intro: list_all2_sym_rule)
next
  case (7 T a b)
  then show ?case by (auto intro: list_all2_sym_rule)
next
  case (8 T a b)
  then show ?case by (auto intro: list_all2_sym_rule)
next
  case (9 T a b)
  then show ?case by (auto intro: covers_sym)
next
  case (10 T a b)
  then show ?case by (auto intro: covers_sym)
next
  case (12 K V a b)
  then show ?case
    using covers_sym [of "elems a" "elems b"
        "\<lambda>x y. same K (first x) (first y) \<and> same V (second x) (second y)"]
    by auto
next
  case (13 K V a b)
  then show ?case
    using covers_sym [of "elems a" "elems b"
        "\<lambda>x y. same K (first x) (first y) \<and> same V (second x) (second y)"]
    by auto
qed (auto split: option.splits list.splits)

lemma same_trans:
  "same T a b \<Longrightarrow> same T b c \<Longrightarrow> same T a c"
  "same_slots Ts vs ws \<Longrightarrow> same_slots Ts ws us \<Longrightarrow> same_slots Ts vs us"
proof (induction T a b and Ts vs ws arbitrary: c and us rule: same_same_slots.induct)
  case (5 T a b)
  then show ?case by (auto intro: list_all2_trans_rule)
next
  case (6 T n a b)
  then show ?case by (auto intro: list_all2_trans_rule)
next
  case (7 T a b)
  then show ?case by (auto intro: list_all2_trans_rule)
next
  case (8 T a b)
  then show ?case by (auto intro: list_all2_trans_rule)
next
  case (9 T a b)
  then show ?case by (auto intro: covers_trans)
next
  case (10 T a b)
  then show ?case by (auto intro: covers_trans)
next
  case (12 K V a b)
  let ?R = "\<lambda>x y. same K (first x) (first y) \<and> same V (second x) (second y)"
  from "12.prems" have ab: "covers ?R (elems a) (elems b)" and bc: "covers ?R (elems b) (elems c)"
    by simp_all
  have "covers ?R (elems a) (elems c)"
  proof (rule covers_trans [OF _ ab bc])
    fix x y z
    assume "?R x y" and "?R y z"
    then show "?R x z"
      using "12.IH" by blast
  qed
  then show ?case
    by simp
next
  case (13 K V a b)
  let ?R = "\<lambda>x y. same K (first x) (first y) \<and> same V (second x) (second y)"
  from "13.prems" have ab: "covers ?R (elems a) (elems b)" and bc: "covers ?R (elems b) (elems c)"
    by simp_all
  have "covers ?R (elems a) (elems c)"
  proof (rule covers_trans [OF _ ab bc])
    fix x y z
    assume "?R x y" and "?R y z"
    then show "?R x z"
      using "13.IH" by blast
  qed
  then show ?case
    by simp
qed (auto split: option.splits list.splits)

subsection \<open>Loops and shapes, one at a time\<close>

lemma round_tripsD:
  assumes "round_trips e T v" and "of_shape T v" and "wire T v = Inr bs" and "blank e T d"
  obtains v' where "decode e T d (source (bs @ rest)) = (v', source rest)" and "same T v v'"
  using assms unfolding round_trips_def by blast

lemma blank_value_init [simp]: "blank e T (value_init T)"
  by (simp add: blank_def)

lemma blank_default_init [simp]: "blank e T (default_init e T)"
  by (simp add: blank_def)

lemma read_exact:
  "length a = n \<Longrightarrow> length buf = n \<Longrightarrow> stream_read n buf (source (a @ rest)) = (a, source rest)"
  using stream_read_source [of a buf rest] by simp

lemma each_round_trip:
  assumes "\<forall>x\<in>set xs. round_trips e T x" and "list_all (of_shape T) xs"
    and "wire_each T xs = Inr bs" and "length ds = length xs" and "\<forall>d\<in>set ds. blank e T d"
  shows "\<exists>ys. decode_each e T ds (source (bs @ rest)) = (ys, source rest) \<and>
           list_all2 (same T) xs ys"
  using assms
proof (induction xs arbitrary: ds bs)
  case Nil
  then show ?case by simp
next
  case (Cons x xs)
  from Cons.prems(4) obtain d ds' where ds: "ds = d # ds'" and len: "length ds' = length xs"
    by (cases ds) auto
  from Cons.prems(3) obtain a b where a: "wire T x = Inr a" and b: "wire_each T xs = Inr b"
      and bs: "bs = a @ b"
    by (auto simp: wire_each_Cons join_Inr_iff)
  from Cons.prems(1,2,5) ds have r: "round_trips e T x" and o: "of_shape T x"
      and bl: "blank e T d"
    by simp_all
  obtain x' where x': "decode e T d (source (a @ (b @ rest))) = (x', source (b @ rest))"
      and sx: "same T x x'"
    by (rule round_tripsD [OF r o a bl])
  from Cons.prems(1,2,5) ds len b
  obtain ys where ys: "decode_each e T ds' (source (b @ rest)) = (ys, source rest)"
      and sy: "list_all2 (same T) xs ys"
    using Cons.IH [of b ds'] by auto
  show ?case
    using x' sx ys sy by (simp add: ds bs)
qed

lemma push_round_trip:
  assumes "\<forall>x\<in>set xs. round_trips e T x" and "list_all (of_shape T) xs"
    and "wire_each T xs = Inr bs"
  shows "\<exists>ys. decode_push e T i (i + length xs) acc (source (bs @ rest)) =
             (acc @ ys, source rest) \<and> list_all2 (same T) xs ys"
  using assms
proof (induction xs arbitrary: i acc bs)
  case Nil
  then show ?case by simp
next
  case (Cons x xs)
  from Cons.prems(3) obtain a b where a: "wire T x = Inr a" and b: "wire_each T xs = Inr b"
      and bs: "bs = a @ b"
    by (auto simp: wire_each_Cons join_Inr_iff)
  from Cons.prems(1,2) have r: "round_trips e T x" and o: "of_shape T x"
      and bl: "blank e T (value_init T)"
    by simp_all
  obtain x' where x': "decode e T (value_init T) (source (a @ (b @ rest))) =
      (x', source (b @ rest))" and sx: "same T x x'"
    by (rule round_tripsD [OF r o a bl])
  from Cons.prems(1,2) b
  obtain ys where ys: "decode_push e T (Suc i) (Suc i + length xs) (acc @ [x']) (source (b @ rest))
      = ((acc @ [x']) @ ys, source rest)" and sy: "list_all2 (same T) xs ys"
    using Cons.IH [of b "Suc i" "acc @ [x']"] by auto
  have "decode_push e T i (i + length (x # xs)) acc (source (bs @ rest)) =
      (acc @ x' # ys, source rest)"
    using x' ys by (simp add: decode_push_step bs)
  with sx sy show ?case
    by auto
qed

lemma discerningD:
  assumes "discerning e" and "list_ex (\<lambda>y. equivalent e C (f y) k) xs"
  obtains y where "y \<in> set xs" and "f y = k"
  using assms unfolding discerning_def list_ex_iff by blast

lemma insert_round_trip:
  assumes "discerning e"
    and "\<forall>x\<in>set xs. round_trips e T x" and "list_all (of_shape T) xs"
    and "wire_each T xs = Inr bs"
    and "\<forall>a\<in>set acc. \<exists>z\<in>Z. same T z a"
    and "\<forall>z\<in>Z. \<exists>a\<in>set acc. same T z a"
  shows "\<exists>res. decode_insert e C T i (i + length xs) acc (source (bs @ rest)) =
             (res, source rest) \<and>
           (\<forall>a\<in>set res. \<exists>z\<in>Z \<union> set xs. same T z a) \<and>
           (\<forall>z\<in>Z \<union> set xs. \<exists>a\<in>set res. same T z a)"
  using assms(2-)
proof (induction xs arbitrary: i acc Z bs)
  case Nil
  then show ?case by simp
next
  case (Cons x xs)
  from Cons.prems(3) obtain a b where a: "wire T x = Inr a" and b: "wire_each T xs = Inr b"
      and bs: "bs = a @ b"
    by (auto simp: wire_each_Cons join_Inr_iff)
  from Cons.prems(1,2) have r: "round_trips e T x" and o: "of_shape T x"
      and bl: "blank e T (default_init e T)"
    by simp_all
  obtain x' where x': "decode e T (default_init e T) (source (a @ (b @ rest))) =
      (x', source (b @ rest))" and sx: "same T x x'"
    by (rule round_tripsD [OF r o a bl])
  have held: "\<exists>a\<in>set (set_insert e C x' acc). same T x a"
  proof (cases "list_ex (\<lambda>y. equivalent e C y x') acc")
    case True
    then obtain y where y: "y \<in> set acc" and "y = x'"
      by (rule discerningD [OF assms(1), where f = "\<lambda>y. y"])
    with sx have "same T x y"
      by simp
    with y True show ?thesis
      by (auto simp: set_set_insert)
  next
    case False
    with sx show ?thesis
      by (auto simp: set_set_insert)
  qed
  have sub: "set acc \<subseteq> set (set_insert e C x' acc)"
      and sup: "set (set_insert e C x' acc) \<subseteq> insert x' (set acc)"
    by (auto simp: set_set_insert)
  have i1: "\<forall>a\<in>set (set_insert e C x' acc). \<exists>z\<in>insert x Z. same T z a"
    using Cons.prems(4) sx sup by blast
  have i2: "\<forall>z\<in>insert x Z. \<exists>a\<in>set (set_insert e C x' acc). same T z a"
    using Cons.prems(5) held sub by blast
  from Cons.prems(1,2) have p1: "\<forall>x\<in>set xs. round_trips e T x"
      and p2: "list_all (of_shape T) xs"
    by (simp_all add: list_all_iff)
  from Cons.IH [OF p1 p2 b i1 i2, of "Suc i"]
  obtain res where res: "decode_insert e C T (Suc i) (Suc i + length xs) (set_insert e C x' acc)
        (source (b @ rest)) = (res, source rest)"
      and c1: "\<forall>a\<in>set res. \<exists>z\<in>insert x Z \<union> set xs. same T z a"
      and c2: "\<forall>z\<in>insert x Z \<union> set xs. \<exists>a\<in>set res. same T z a"
    by blast
  have "decode_insert e C T i (i + length (x # xs)) acc (source (bs @ rest)) = (res, source rest)"
    using x' res by (simp add: decode_insert_step bs)
  moreover have "\<forall>a\<in>set res. \<exists>z\<in>Z \<union> set (x # xs). same T z a"
    using c1 by auto
  moreover have "\<forall>z\<in>Z \<union> set (x # xs). \<exists>a\<in>set res. same T z a"
    using c2 by auto
  ultimately show ?case
    by blast
qed

lemma insert_covers:
  assumes "discerning e"
    and "\<And>x. round_trips e T x" and "list_all (of_shape T) xs"
    and "wire_each T xs = Inr b"
  obtains res where
    "decode_insert e C T 0 (length xs) [] (source (b @ rest)) = (res, source rest)"
    and "covers (same T) xs res"
proof -
  from assms(2) have "\<forall>x\<in>set xs. round_trips e T x"
    by simp
  from insert_round_trip [OF assms(1) this assms(3,4), where acc = "[]" and Z = "{}" and C = C
      and i = 0 and rest = rest]
  obtain res where "decode_insert e C T 0 (length xs) [] (source (b @ rest)) = (res, source rest)"
      and "\<forall>a\<in>set res. \<exists>z\<in>set xs. same T z a"
      and "\<forall>z\<in>set xs. \<exists>a\<in>set res. same T z a"
    by auto
  then show thesis
    by (intro that) (auto simp: covers_iff)
qed

lemma emplace_round_trip:
  assumes "discerning e"
    and "\<forall>x\<in>set xs. round_trips e (PairT K V) x"
    and "list_all (of_shape (PairT K V)) xs"
    and "wire_each (PairT K V) xs = Inr bs"
    and "unique_keys K xs"
    and "\<forall>a\<in>set acc. \<exists>z\<in>Z. same (PairT K V) z a"
    and "\<forall>z\<in>Z. \<exists>a\<in>set acc. same (PairT K V) z a"
    and "\<forall>z\<in>Z. \<forall>x\<in>set xs. \<not> same K (first z) (first x)"
  shows "\<exists>res. decode_emplace e C K V i (i + length xs) acc (source (bs @ rest)) =
             (res, source rest) \<and>
           (\<forall>a\<in>set res. \<exists>z\<in>Z \<union> set xs. same (PairT K V) z a) \<and>
           (\<forall>z\<in>Z \<union> set xs. \<exists>a\<in>set res. same (PairT K V) z a)"
  using assms(2-)
proof (induction xs arbitrary: i acc Z bs)
  case Nil
  then show ?case by simp
next
  case (Cons x xs)
  from Cons.prems(3) obtain a b where a: "wire (PairT K V) x = Inr a"
      and b: "wire_each (PairT K V) xs = Inr b" and bs: "bs = a @ b"
    by (auto simp: wire_each_Cons join_Inr_iff)
  from Cons.prems(1,2) have r: "round_trips e (PairT K V) x" and o: "of_shape (PairT K V) x"
    by simp_all
  have bl: "blank e (PairT K V) (value_init (PairT K V))"
    by (rule blank_value_init)
  obtain x' where x': "decode e (PairT K V) (value_init (PairT K V)) (source (a @ (b @ rest))) =
      (x', source (b @ rest))" and sx: "same (PairT K V) x x'"
    by (rule round_tripsD [OF r o a bl])
  have new: "\<not> list_ex (\<lambda>y. equivalent e C (first y) (first x')) acc"
  proof
    assume "list_ex (\<lambda>y. equivalent e C (first y) (first x')) acc"
    then obtain c where c: "c \<in> set acc" and fc: "first c = first x'"
      by (rule discerningD [OF assms(1), where f = first])
    from Cons.prems(5) c obtain z where z: "z \<in> Z" and zc: "same (PairT K V) z c"
      by blast
    from zc fc have "same K (first z) (first x')"
      by simp
    moreover from sx have "same K (first x') (first x)"
      by (simp add: same_sym(1))
    ultimately have "same K (first z) (first x)"
      by (rule same_trans(1))
    with Cons.prems(7) z show False
      by simp
  qed
  then have acc': "set (map_emplace e C x' acc) = insert x' (set acc)"
    by (simp add: set_map_emplace)
  have i1: "\<forall>a\<in>set (map_emplace e C x' acc). \<exists>z\<in>insert x Z. same (PairT K V) z a"
    using Cons.prems(5) sx unfolding acc' by blast
  have i2: "\<forall>z\<in>insert x Z. \<exists>a\<in>set (map_emplace e C x' acc). same (PairT K V) z a"
    using Cons.prems(6) sx unfolding acc' by blast
  have i3: "\<forall>z\<in>insert x Z. \<forall>y\<in>set xs. \<not> same K (first z) (first y)"
    using Cons.prems(4,7) by (auto simp: list_ex_iff)
  from Cons.prems(1,2,4) have p1: "\<forall>x\<in>set xs. round_trips e (PairT K V) x"
      and p2: "list_all (of_shape (PairT K V)) xs" and p4: "unique_keys K xs"
    by (simp_all add: list_all_iff)
  from Cons.IH [OF p1 p2 b p4 i1 i2 i3, of "Suc i"]
  obtain res where res: "decode_emplace e C K V (Suc i) (Suc i + length xs) (map_emplace e C x' acc)
        (source (b @ rest)) = (res, source rest)"
      and c1: "\<forall>a\<in>set res. \<exists>z\<in>insert x Z \<union> set xs. same (PairT K V) z a"
      and c2: "\<forall>z\<in>insert x Z \<union> set xs. \<exists>a\<in>set res. same (PairT K V) z a"
    by blast
  have "decode_emplace e C K V i (i + length (x # xs)) acc (source (bs @ rest)) =
      (res, source rest)"
    using x' res by (simp add: decode_emplace_step bs)
  moreover have "\<forall>a\<in>set res. \<exists>z\<in>Z \<union> set (x # xs). same (PairT K V) z a"
    using c1 by auto
  moreover have "\<forall>z\<in>Z \<union> set (x # xs). \<exists>a\<in>set res. same (PairT K V) z a"
    using c2 by auto
  ultimately show ?case
    by blast
qed


lemma round_tripsI:
  assumes "\<And>bs rest d. of_shape T v \<Longrightarrow> wire T v = Inr bs \<Longrightarrow> blank e T d \<Longrightarrow>
    \<exists>v'. decode e T d (source (bs @ rest)) = (v', source rest) \<and> same T v v'"
  shows "round_trips e T v"
  using assms unfolding round_trips_def by blast

lemma blank_bytes: "blank e (Pod k) d \<Longrightarrow> length (bytes d) = k"
  by (auto simp: blank_def)

lemma rt_pod: "round_trips e (Pod k) v"
proof (rule round_tripsI)
  fix bs rest d
  assume ty: "of_shape (Pod k) v" and w: "wire (Pod k) v = Inr bs" and d: "blank e (Pod k) d"
  from ty obtain b where v: "v = Obj b" and len: "length b = k"
    by (cases v) (simp_all add: is_obj_def)
  from w v have bs: "bs = b"
    by (simp add: wire_pod)
  have "stream_read k (bytes d) (source (b @ rest)) = (b, source rest)"
    using len blank_bytes [OF d] by (rule read_exact)
  then show "\<exists>v'. decode e (Pod k) d (source (bs @ rest)) = (v', source rest) \<and> same (Pod k) v v'"
    by (simp add: bs v)
qed

lemma as_bool_flag [simp]: "as_bool [1]" "\<not> as_bool [0]"
  by (simp_all add: as_bool_def)

lemma rt_payload:
  assumes rt: "\<And>x. round_trips e T x"
    and ty: "\<And>y. payload v = Some y \<Longrightarrow> of_shape T y"
    and w: "(case payload v of None \<Rightarrow> none | Some x \<Rightarrow> join (Inr [1]) (wire T x)) = Inr bs"
    and pv: "payload v \<noteq> None"
  obtains x x' b where "payload v = Some x" and "bs = 1 # b"
    and "decode e T (value_init T) (source (b @ rest)) = (x', source rest)" and "same T x x'"
proof -
  from pv obtain x where x: "payload v = Some x"
    by auto
  with w obtain b where b: "wire T x = Inr b" and bs: "bs = 1 # b"
    by (auto simp: join_Inr_iff)
  obtain x' where "decode e T (value_init T) (source (b @ rest)) = (x', source rest)"
      and "same T x x'"
    by (rule round_tripsD [OF rt ty [OF x] b blank_value_init])
  with x bs show thesis
    by (rule that)
qed

lemma rt_unique_ptr:
  assumes rt: "\<And>x. round_trips e T x"
  shows "round_trips e (UniquePtr T) v"
proof (rule round_tripsI)
  fix bs rest d
  assume ty: "of_shape (UniquePtr T) v" and w: "wire (UniquePtr T) v = Inr bs"
  from w have pv: "payload v \<noteq> None"
    by (auto simp: wire_pointer split: option.splits)
  from ty have ty': "payload v = Some x \<Longrightarrow> of_shape T x" for x
    by (cases v) (auto split: option.splits)
  from w have w': "(case payload v of None \<Rightarrow> Inl NullDereference
      | Some x \<Rightarrow> join (Inr [1]) (wire T x)) = Inr bs"
    by (simp add: wire_pointer)
  obtain x x' b where "payload v = Some x" and "bs = 1 # b"
      and "decode e T (value_init T) (source (b @ rest)) = (x', source rest)" and "same T x x'"
    by (rule rt_payload [OF rt ty' w' pv])
  then show "\<exists>v'. decode e (UniquePtr T) d (source (bs @ rest)) = (v', source rest) \<and>
      same (UniquePtr T) v v'"
    by simp
qed

lemma rt_shared_ptr:
  assumes rt: "\<And>x. round_trips e T x"
  shows "round_trips e (SharedPtr T) v"
proof (rule round_tripsI)
  fix bs rest d
  assume ty: "of_shape (SharedPtr T) v" and w: "wire (SharedPtr T) v = Inr bs"
  from w have pv: "payload v \<noteq> None"
    by (auto simp: wire_pointer split: option.splits)
  from ty have ty': "payload v = Some x \<Longrightarrow> of_shape T x" for x
    by (cases v) (auto split: option.splits)
  from w have w': "(case payload v of None \<Rightarrow> Inl NullDereference
      | Some x \<Rightarrow> join (Inr [1]) (wire T x)) = Inr bs"
    by (simp add: wire_pointer)
  obtain x x' b where "payload v = Some x" and "bs = 1 # b"
      and "decode e T (value_init T) (source (b @ rest)) = (x', source rest)" and "same T x x'"
    by (rule rt_payload [OF rt ty' w' pv])
  then show "\<exists>v'. decode e (SharedPtr T) d (source (bs @ rest)) = (v', source rest) \<and>
      same (SharedPtr T) v v'"
    by simp
qed

lemma rt_optional:
  assumes rt: "\<And>x. round_trips e T x"
  shows "round_trips e (Optional T) v"
proof (rule round_tripsI)
  fix bs rest d
  assume ty: "of_shape (Optional T) v" and w: "wire (Optional T) v = Inr bs"
    and d: "blank e (Optional T) d"
  from d have d': "d = Opt None"
    by (simp add: blank_def)
  show "\<exists>v'. decode e (Optional T) d (source (bs @ rest)) = (v', source rest) \<and>
      same (Optional T) v v'"
  proof (cases "payload v")
    case None
    with w have "bs = [0]"
      by (simp add: wire_optional)
    with None show ?thesis
      by (simp add: d')
  next
    case (Some y)
    then have pv: "payload v \<noteq> None"
      by simp
    from ty have ty': "payload v = Some x \<Longrightarrow> of_shape T x" for x
      by (cases v) (auto split: option.splits)
    from w have w': "(case payload v of None \<Rightarrow> Inr [0]
        | Some x \<Rightarrow> join (Inr [1]) (wire T x)) = Inr bs"
      by (simp add: wire_optional)
    obtain x x' b where "payload v = Some x" and "bs = 1 # b"
        and "decode e T (value_init T) (source (b @ rest)) = (x', source rest)" and "same T x x'"
      by (rule rt_payload [OF rt ty' w' pv])
    then show ?thesis
      by simp
  qed
qed

lemma rt_pair:
  assumes rtA: "\<And>x. round_trips e A x" and rtB: "\<And>x. round_trips e B x"
  shows "round_trips e (PairT A B) v"
proof (rule round_tripsI)
  fix bs rest d
  assume ty: "of_shape (PairT A B) v" and w: "wire (PairT A B) v = Inr bs"
    and d: "blank e (PairT A B) d"
  from ty obtain x y where v: "v = Pr x y" and tx: "of_shape A x" and ty': "of_shape B y"
    by (cases v) simp_all
  from d have d': "d = Pr (value_init A) (value_init B)"
    by (simp add: blank_def)
  from w v obtain a b where a: "wire A x = Inr a" and b: "wire B y = Inr b" and bs: "bs = a @ b"
    by (auto simp: wire_pair join_Inr_iff)
  obtain x' where x': "decode e A (value_init A) (source (a @ (b @ rest))) = (x', source (b @ rest))"
      and sx: "same A x x'"
    by (rule round_tripsD [OF rtA tx a blank_value_init])
  obtain y' where y': "decode e B (value_init B) (source (b @ rest)) = (y', source rest)"
      and sy: "same B y y'"
    by (rule round_tripsD [OF rtB ty' b blank_value_init])
  show "\<exists>v'. decode e (PairT A B) d (source (bs @ rest)) = (v', source rest) \<and>
      same (PairT A B) v v'"
    using x' y' sx sy by (simp add: d' bs v)
qed


lemma counted_prefix:
  assumes "join (Inr (size_rep n)) r = Inr bs" and "n < 2 ^ 64"
  obtains b where "r = Inr b" and "bs = size_rep n @ b"
    and "stream_read 8 (uninit e 8) (source (bs @ rest)) = (size_rep n, source (b @ rest))"
    and "le_nat (size_rep n) = n"
proof -
  from assms(1) obtain b where b: "r = Inr b" and bs: "bs = size_rep n @ b"
    by (auto simp: join_Inr_iff)
  have "stream_read 8 (uninit e 8) (source (bs @ rest)) = (size_rep n, source (b @ rest))"
    by (simp add: bs)
  moreover have "le_nat (size_rep n) = n"
    using assms(2) by (rule le_nat_size_rep_small)
  ultimately show thesis
    using b bs by (intro that)
qed

lemma of_shape_counted:
  assumes "of_shape S v"
    and "S \<in> {Vector T, ListT T, Deque T, SetT T, UnorderedSet T}"
  obtains xs where "v = Seq xs" and "length xs < 2 ^ 64" and "list_all (of_shape T) xs"
  using assms by (cases v) (auto simp: list_all_iff)

lemma blank_container:
  assumes "blank e S d"
    and "S \<in> {BasicString k, Vector T, ListT T, Deque T, SetT T, UnorderedSet T,
      MapT K V, UnorderedMap K V}"
  shows "d = Seq []"
  using assms by (auto simp: blank_def)

lemma list_all2_covers:
  assumes "list_all2 R xs ys" and "set zs = set ys"
  shows "covers R xs zs"
  unfolding covers_iff using assms
  by (auto simp: list_all2_conv_all_nth in_set_conv_nth) (metis nth_mem)+

lemma rt_list:
  assumes rt: "\<And>x. round_trips e T x"
  shows "round_trips e (ListT T) v"
proof (rule round_tripsI)
  fix bs rest d
  assume ty: "of_shape (ListT T) v" and w: "wire (ListT T) v = Inr bs"
    and d: "blank e (ListT T) d"
  from ty obtain xs where v: "v = Seq xs" and n: "length xs < 2 ^ 64"
      and tys: "list_all (of_shape T) xs"
    by (rule of_shape_counted) simp
  from d have d': "d = Seq []"
    by (rule blank_container) simp
  from w v have "join (Inr (size_rep (length xs))) (wire_each T xs) = Inr bs"
    by (simp add: wire_counted)
  then obtain b where b: "wire_each T xs = Inr b"
      and rd: "stream_read 8 (uninit e 8) (source (bs @ rest)) =
        (size_rep (length xs), source (b @ rest))"
      and ln: "le_nat (size_rep (length xs)) = length xs"
    using n by (rule counted_prefix)
  from rt have "\<forall>x\<in>set xs. round_trips e T x"
    by simp
  from push_round_trip [OF this tys b, of 0 "[]" rest]
  obtain ys where "decode_push e T 0 (length xs) [] (source (b @ rest)) = (ys, source rest)"
      and "list_all2 (same T) xs ys"
    by auto
  then show "\<exists>v'. decode e (ListT T) d (source (bs @ rest)) = (v', source rest) \<and>
      same (ListT T) v v'"
    by (simp add: d' v rd ln)
qed

lemma rt_deque:
  assumes rt: "\<And>x. round_trips e T x"
  shows "round_trips e (Deque T) v"
proof (rule round_tripsI)
  fix bs rest d
  assume ty: "of_shape (Deque T) v" and w: "wire (Deque T) v = Inr bs"
    and d: "blank e (Deque T) d"
  from ty obtain xs where v: "v = Seq xs" and n: "length xs < 2 ^ 64"
      and tys: "list_all (of_shape T) xs"
    by (rule of_shape_counted) simp
  from d have d': "d = Seq []"
    by (rule blank_container) simp
  from w v have "join (Inr (size_rep (length xs))) (wire_each T xs) = Inr bs"
    by (simp add: wire_counted)
  then obtain b where b: "wire_each T xs = Inr b"
      and rd: "stream_read 8 (uninit e 8) (source (bs @ rest)) =
        (size_rep (length xs), source (b @ rest))"
      and ln: "le_nat (size_rep (length xs)) = length xs"
    using n by (rule counted_prefix)
  from rt have "\<forall>x\<in>set xs. round_trips e T x"
    by simp
  from push_round_trip [OF this tys b, of 0 "[]" rest]
  obtain ys where "decode_push e T 0 (length xs) [] (source (b @ rest)) = (ys, source rest)"
      and "list_all2 (same T) xs ys"
    by auto
  then show "\<exists>v'. decode e (Deque T) d (source (bs @ rest)) = (v', source rest) \<and>
      same (Deque T) v v'"
    by (simp add: d' v rd ln)
qed

lemma rt_set:
  assumes e: "discerning e" and rt: "\<And>x. round_trips e T x"
  shows "round_trips e (SetT T) v"
proof (rule round_tripsI)
  fix bs rest d
  assume ty: "of_shape (SetT T) v" and w: "wire (SetT T) v = Inr bs"
    and d: "blank e (SetT T) d"
  from ty obtain xs where v: "v = Seq xs" and n: "length xs < 2 ^ 64"
      and tys: "list_all (of_shape T) xs"
    by (rule of_shape_counted) simp
  from d have d': "d = Seq []"
    by (rule blank_container) simp
  from w v have "join (Inr (size_rep (length xs))) (wire_each T xs) = Inr bs"
    by (simp add: wire_counted)
  then obtain b where b: "wire_each T xs = Inr b"
      and rd: "stream_read 8 (uninit e 8) (source (bs @ rest)) =
        (size_rep (length xs), source (b @ rest))"
      and ln: "le_nat (size_rep (length xs)) = length xs"
    using n by (rule counted_prefix)
  obtain res where
    res: "decode_insert e (SetT T) T 0 (length xs) [] (source (b @ rest)) = (res, source rest)"
    and "covers (same T) xs res"
    using e rt tys b by (rule insert_covers)
  then show "\<exists>v'. decode e (SetT T) d (source (bs @ rest)) = (v', source rest) \<and>
      same (SetT T) v v'"
    by (simp add: d' v rd ln)
qed

lemma rt_unordered_set:
  assumes e: "discerning e" and rt: "\<And>x. round_trips e T x"
  shows "round_trips e (UnorderedSet T) v"
proof (rule round_tripsI)
  fix bs rest d
  assume ty: "of_shape (UnorderedSet T) v" and w: "wire (UnorderedSet T) v = Inr bs"
    and d: "blank e (UnorderedSet T) d"
  from ty obtain xs where v: "v = Seq xs" and n: "length xs < 2 ^ 64"
      and tys: "list_all (of_shape T) xs"
    by (rule of_shape_counted) simp
  from d have d': "d = Seq []"
    by (rule blank_container) simp
  from w v have "join (Inr (size_rep (length xs))) (wire_each T xs) = Inr bs"
    by (simp add: wire_counted)
  then obtain b where b: "wire_each T xs = Inr b"
      and rd: "stream_read 8 (uninit e 8) (source (bs @ rest)) =
        (size_rep (length xs), source (b @ rest))"
      and ln: "le_nat (size_rep (length xs)) = length xs"
    using n by (rule counted_prefix)
  obtain res where
    res: "decode_insert e (UnorderedSet T) T 0 (length xs) [] (source (b @ rest)) = (res, source rest)"
    and "covers (same T) xs res"
    using e rt tys b by (rule insert_covers)
  then show "\<exists>v'. decode e (UnorderedSet T) d (source (bs @ rest)) = (v', source rest) \<and>
      same (UnorderedSet T) v v'"
    by (simp add: d' v rd ln)
qed

lemma of_shape_map:
  assumes "of_shape S v" and "S \<in> {MapT K V, UnorderedMap K V}"
  obtains xs where "v = Seq xs" and "length xs < 2 ^ 64"
    and "list_all (of_shape (PairT K V)) xs" and "unique_keys K xs"
  using assms by (cases v) (auto simp: list_all_iff)

lemma emplace_covers:
  assumes "discerning e"
    and "\<And>x. round_trips e (PairT K V) x"
    and "list_all (of_shape (PairT K V)) xs"
    and "wire_each (PairT K V) xs = Inr b"
    and "unique_keys K xs"
  obtains res where
    "decode_emplace e C K V 0 (length xs) [] (source (b @ rest)) = (res, source rest)"
    and "covers (\<lambda>x y. same K (first x) (first y) \<and> same V (second x) (second y)) xs res"
proof -
  from assms(2) have "\<forall>x\<in>set xs. round_trips e (PairT K V) x"
    by simp
  from emplace_round_trip [OF assms(1) this assms(3,4,5), where acc = "[]" and Z = "{}" and C = C
      and i = 0 and rest = rest]
  obtain res where "decode_emplace e C K V 0 (length xs) [] (source (b @ rest)) = (res, source rest)"
      and "\<forall>a\<in>set res. \<exists>z\<in>set xs. same (PairT K V) z a"
      and "\<forall>z\<in>set xs. \<exists>a\<in>set res. same (PairT K V) z a"
    by auto
  then show thesis
    by (intro that) (auto simp: covers_iff)
qed

lemma rt_map:
  assumes e: "discerning e" and rt: "\<And>x. round_trips e (PairT K V) x"
  shows "round_trips e (MapT K V) v"
proof (rule round_tripsI)
  fix bs rest d
  assume ty: "of_shape (MapT K V) v" and w: "wire (MapT K V) v = Inr bs"
    and d: "blank e (MapT K V) d"
  from ty obtain xs where v: "v = Seq xs" and n: "length xs < 2 ^ 64"
      and tys: "list_all (of_shape (PairT K V)) xs" and uk: "unique_keys K xs"
    by (rule of_shape_map) simp
  from d have d': "d = Seq []"
    by (rule blank_container) simp
  from w v have "join (Inr (size_rep (length xs))) (wire_each (PairT K V) xs) = Inr bs"
    by (simp add: wire_counted)
  then obtain b where b: "wire_each (PairT K V) xs = Inr b"
      and rd: "stream_read 8 (uninit e 8) (source (bs @ rest)) =
        (size_rep (length xs), source (b @ rest))"
      and ln: "le_nat (size_rep (length xs)) = length xs"
    using n by (rule counted_prefix)
  obtain res where
    "decode_emplace e (MapT K V) K V 0 (length xs) [] (source (b @ rest)) = (res, source rest)"
    and "covers (\<lambda>x y. same K (first x) (first y) \<and> same V (second x) (second y)) xs res"
    using e rt tys b uk by (rule emplace_covers)
  then show "\<exists>v'. decode e (MapT K V) d (source (bs @ rest)) = (v', source rest) \<and>
      same (MapT K V) v v'"
    by (simp add: d' v rd ln)
qed

lemma rt_unordered_map:
  assumes e: "discerning e" and rt: "\<And>x. round_trips e (PairT K V) x"
  shows "round_trips e (UnorderedMap K V) v"
proof (rule round_tripsI)
  fix bs rest d
  assume ty: "of_shape (UnorderedMap K V) v" and w: "wire (UnorderedMap K V) v = Inr bs"
    and d: "blank e (UnorderedMap K V) d"
  from ty obtain xs where v: "v = Seq xs" and n: "length xs < 2 ^ 64"
      and tys: "list_all (of_shape (PairT K V)) xs" and uk: "unique_keys K xs"
    by (rule of_shape_map) simp
  from d have d': "d = Seq []"
    by (rule blank_container) simp
  from w v have "join (Inr (size_rep (length xs))) (wire_each (PairT K V) xs) = Inr bs"
    by (simp add: wire_counted)
  then obtain b where b: "wire_each (PairT K V) xs = Inr b"
      and rd: "stream_read 8 (uninit e 8) (source (bs @ rest)) =
        (size_rep (length xs), source (b @ rest))"
      and ln: "le_nat (size_rep (length xs)) = length xs"
    using n by (rule counted_prefix)
  obtain res where
    "decode_emplace e (UnorderedMap K V) K V 0 (length xs) [] (source (b @ rest)) = (res, source rest)"
    and "covers (\<lambda>x y. same K (first x) (first y) \<and> same V (second x) (second y)) xs res"
    using e rt tys b uk by (rule emplace_covers)
  then show "\<exists>v'. decode e (UnorderedMap K V) d (source (bs @ rest)) = (v', source rest) \<and>
      same (UnorderedMap K V) v v'"
    by (simp add: d' v rd ln)
qed

lemma undata_data:
  "list_all (is_obj k) xs \<Longrightarrow> undata k (length xs) (data xs @ rest) = xs"
proof (induction xs)
  case Nil
  show ?case by (simp add: undata_def)
next
  case (Cons x xs)
  then have ox: "is_obj k x" and rest: "list_all (is_obj k) xs"
    by simp_all
  from ox obtain b where x: "x = Obj b" and len: "length b = k"
    by (cases x) (simp_all add: is_obj_def)
  have d: "data (Obj b # xs) = b @ data xs"
    by (simp add: data_def)
  have "undata k (Suc (length xs)) (b @ data xs @ rest) =
      Obj b # undata k (length xs) (data xs @ rest)"
    unfolding undata_def map_upt_Suc using len by simp
  with Cons.IH [OF rest] show ?case
    by (simp add: d x)
qed

lemma data_replicate_length:
  "length (bytes d) = k \<Longrightarrow> length (data (replicate n d)) = k * n"
  by (induction n) (simp_all add: data_def)

lemma bulk_read:
  assumes "list_all (is_obj k) xs" and "length buf = k * length xs"
  shows "stream_read (k * length xs) buf (source (data xs @ rest)) = (data xs, source rest)"
  using assms by (intro read_exact) (simp_all add: length_data)


lemma le_nat_size_rep_0 [simp]: "le_nat (size_rep 0) = 0"
  by (simp add: le_nat_size_rep)

lemma take_data: "list_all (is_obj k) xs \<Longrightarrow> take (k * length xs) (data xs) = data xs"
  by (simp add: length_data)

lemma rt_string: "round_trips e (BasicString k) v"
proof (rule round_tripsI)
  fix bs rest d
  assume ty: "of_shape (BasicString k) v" and w: "wire (BasicString k) v = Inr bs"
    and d: "blank e (BasicString k) d"
  from ty obtain xs where v: "v = Seq xs" and n: "length xs < 2 ^ 64"
      and tys: "list_all (is_obj k) xs"
    by (cases v) simp_all
  from d have d': "d = Seq []"
    by (rule blank_container) simp
  from n have ln: "le_nat (size_rep (length xs)) = length xs"
    by (rule le_nat_size_rep_small)
  show "\<exists>v'. decode e (BasicString k) d (source (bs @ rest)) = (v', source rest) \<and>
      same (BasicString k) v v'"
  proof (cases "xs = []")
    case True
    with w v have "bs = size_rep 0"
      by (simp add: wire_bulk)
    then show ?thesis
      using True by (simp add: d' v)
  next
    case False
    with w v have bs: "bs = size_rep (length xs) @ data xs"
      using take_data [OF tys] by (simp add: wire_bulk mult.commute)
    let ?buf = "data (replicate (length xs) (Obj (replicate k 0)))"
    have "length ?buf = k * length xs"
      by (rule data_replicate_length) simp
    with tys have "stream_read (k * length xs) ?buf (source (data xs @ rest)) =
        (data xs, source rest)"
      by (rule bulk_read)
    moreover have "undata k (length xs) (data xs) = xs"
      using undata_data [OF tys, of "[]"] by simp
    ultimately show ?thesis
      using False by (simp add: d' v bs ln resize_def mult.commute)
  qed
qed

lemma same_pod_list: "list_all2 (same (Pod k)) xs xs"
  by (rule list_all2_refl) simp

lemma rt_vector:
  assumes rt: "\<And>x. round_trips e T x"
  shows "round_trips e (Vector T) v"
proof (rule round_tripsI)
  fix bs rest d
  assume ty: "of_shape (Vector T) v" and w: "wire (Vector T) v = Inr bs"
    and d: "blank e (Vector T) d"
  from ty obtain xs where v: "v = Seq xs" and n: "length xs < 2 ^ 64"
      and tys: "list_all (of_shape T) xs"
    by (rule of_shape_counted) simp
  from d have d': "d = Seq []"
    by (rule blank_container) simp
  from n have ln: "le_nat (size_rep (length xs)) = length xs"
    by (rule le_nat_size_rep_small)
  show "\<exists>v'. decode e (Vector T) d (source (bs @ rest)) = (v', source rest) \<and>
      same (Vector T) v v'"
  proof (cases "serializeAsPOD T")
    case True
    then obtain k where T: "T = Pod k"
      by (cases T) simp_all
    from tys T have objs: "list_all (is_obj k) xs"
      by (simp add: list_all_iff)
    show ?thesis
    proof (cases "xs = []")
      case True
      with w v T have "bs = size_rep 0"
        by (simp add: wire_bulk)
      then show ?thesis
        using True by (simp add: d' v)
    next
      case False
      with w v T have bs: "bs = size_rep (length xs) @ data xs"
        using take_data [OF objs] by (simp add: wire_bulk)
      let ?buf = "data (replicate (length xs) (Obj (replicate k 0)))"
      have "length ?buf = k * length xs"
        by (rule data_replicate_length) simp
      with objs have "stream_read (k * length xs) ?buf (source (data xs @ rest)) =
          (data xs, source rest)"
        by (rule bulk_read)
      moreover have "undata k (length xs) (data xs) = xs"
        using undata_data [OF objs, of "[]"] by simp
      ultimately show ?thesis
        using False same_pod_list [of k xs] by (simp add: d' v bs ln resize_def T)
    qed
  next
    case False
    with w v have "join (Inr (size_rep (length xs))) (wire_each T xs) = Inr bs"
      by (simp add: wire_counted)
    then obtain b where b: "wire_each T xs = Inr b"
        and rd: "stream_read 8 (uninit e 8) (source (bs @ rest)) =
          (size_rep (length xs), source (b @ rest))"
      using n by (rule counted_prefix)
    show ?thesis
    proof (cases "xs = []")
      case True
      with b have "b = []"
        by simp
      with True show ?thesis
        by (simp add: d' v rd)
    next
      case nonempty: False
      from rt have "\<forall>x\<in>set xs. round_trips e T x"
        by simp
      from each_round_trip [OF this tys b, of "replicate (length xs) (value_init T)" rest]
      obtain ys where "decode_each e T (replicate (length xs) (value_init T)) (source (b @ rest))
          = (ys, source rest)" and "list_all2 (same T) xs ys"
        by auto
      then show ?thesis
        using nonempty False by (simp add: d' v rd ln resize_def)
    qed
  qed
qed

lemma rt_array:
  assumes rt: "\<And>x. round_trips e T x"
  shows "round_trips e (Array T n) v"
proof (rule round_tripsI)
  fix bs rest d
  assume ty: "of_shape (Array T n) v" and w: "wire (Array T n) v = Inr bs"
    and d: "blank e (Array T n) d"
  from ty obtain xs where v: "v = Seq xs" and n: "length xs = n"
      and tys: "list_all (of_shape T) xs"
    by (cases v) (auto simp: list_all_iff)
  from d obtain d0 where d': "d = Seq (replicate n d0)" and d0: "blank e T d0"
    by (auto simp: blank_def)
  show "\<exists>v'. decode e (Array T n) d (source (bs @ rest)) = (v', source rest) \<and>
      same (Array T n) v v'"
  proof (cases "n = 0")
    case True
    with w have "bs = []"
      by (simp add: wire_bulk)
    with True n show ?thesis
      by (simp add: d' v)
  next
    case False
    show ?thesis
    proof (cases "serializeAsPOD T")
      case True
      then obtain k where T: "T = Pod k"
        by (cases T) simp_all
      from tys T have objs: "list_all (is_obj k) xs"
        by (simp add: list_all_iff)
      from w v T False have bs: "bs = data xs"
        using take_data [OF objs] n by (simp add: wire_bulk)
      have "length (data (replicate (length xs) d0)) = k * length xs"
        using d0 T by (intro data_replicate_length blank_bytes) simp
      with objs have "stream_read (k * length xs) (data (replicate (length xs) d0))
          (source (data xs @ rest)) = (data xs, source rest)"
        by (rule bulk_read)
      moreover have "undata k (length xs) (data xs) = xs"
        using undata_data [OF objs, of "[]"] by simp
      ultimately show ?thesis
        using False same_pod_list [of k xs] n by (auto simp: d' v bs T)
    next
      case notpod: False
      with w v False have b: "wire_each T xs = Inr bs"
        by (simp add: wire_counted)
      from rt have "\<forall>x\<in>set xs. round_trips e T x"
        by simp
      from each_round_trip [OF this tys b, of "replicate n d0" rest] n d0
      obtain ys where "decode_each e T (replicate n d0) (source (bs @ rest)) = (ys, source rest)"
          and "list_all2 (same T) xs ys"
        by auto
      then show ?thesis
        using notpod False by (simp add: d' v)
    qed
  qed
qed

lemma rt_tuple:
  assumes "\<And>T x. T \<in> set Ts \<Longrightarrow> round_trips e T x"
  shows "round_trips e (Tuple Ts) v"
  using assms
proof (induction Ts arbitrary: v)
  case (Nil v)
  show ?case
  proof (rule round_tripsI)
    fix bs rest d
    assume ty: "of_shape (Tuple []) v" and w: "wire (Tuple []) v = Inr bs"
      and d: "blank e (Tuple []) d"
    from ty have v: "v = Tup []"
      by (cases v) simp_all
    from d have d': "d = Tup []"
      by (simp add: blank_def)
    from w v have "bs = []"
      by (simp add: wire_tuple_nil)
    then show "\<exists>v'. decode e (Tuple []) d (source (bs @ rest)) = (v', source rest) \<and>
        same (Tuple []) v v'"
      by (simp add: d' v)
  qed
next
  case (Cons T Ts v)
  show ?case
  proof (rule round_tripsI)
    fix bs rest d
    assume ty: "of_shape (Tuple (T # Ts)) v" and w: "wire (Tuple (T # Ts)) v = Inr bs"
      and d: "blank e (Tuple (T # Ts)) d"
    from ty obtain x xs where v: "v = Tup (x # xs)" and tx: "of_shape T x"
        and txs: "of_shape (Tuple Ts) (Tup xs)"
      by (cases v) (auto split: list.splits)
    from d have d': "d = Tup (value_init T # map value_init Ts)"
      by (simp add: blank_def)
    from w v obtain a b where a: "wire T x = Inr a" and b: "wire (Tuple Ts) (Tup xs) = Inr b"
        and bs: "bs = a @ b"
      by (auto simp: wire_tuple_cons join_Inr_iff)
    have rT: "round_trips e T x"
      by (rule Cons.prems) simp
    have rTs: "round_trips e (Tuple Ts) (Tup xs)"
      by (rule Cons.IH) (simp add: Cons.prems)
    obtain x' where x': "decode e T (value_init T) (source (a @ (b @ rest))) =
        (x', source (b @ rest))" and sx: "same T x x'"
      by (rule round_tripsD [OF rT tx a blank_value_init])
    have "blank e (Tuple Ts) (Tup (map value_init Ts))"
      by (simp add: blank_def)
    with rTs txs b obtain t where t: "decode e (Tuple Ts) (Tup (map value_init Ts))
        (source (b @ rest)) = (t, source rest)" and st: "same (Tuple Ts) (Tup xs) t"
      by (rule round_tripsD)
    have "decode e (Tuple (T # Ts)) d (source (bs @ rest)) = (Tup (x' # slots t), source rest)"
      using x' t by (simp only: d' decode_tuple_cons bs append_assoc) simp
    moreover have "same (Tuple (T # Ts)) v (Tup (x' # slots t))"
      using sx st by (simp add: v)
    ultimately show "\<exists>v'. decode e (Tuple (T # Ts)) d (source (bs @ rest)) = (v', source rest) \<and>
        same (Tuple (T # Ts)) v v'"
      by blast
  qed
qed

text \<open>Every shape, by induction on the order in which the operators descend.\<close>

lemma weight_member: "T \<in> set Ts \<Longrightarrow> weight T < weight (Tuple Ts)"
  using member_le_sum_list [of "weight T" "map weight Ts"] by (simp add: less_Suc_eq_le)

lemma round_trips_all:
  assumes e: "discerning e"
  shows "round_trips e T v"
proof (induction "weight T" arbitrary: T v rule: less_induct)
  case (less T v)
  show ?case
  proof (cases T)
    case (Pod k)
    then show ?thesis by (simp add: rt_pod)
  next
    case (UniquePtr T')
    then show ?thesis using less by (auto intro: rt_unique_ptr)
  next
    case (SharedPtr T')
    then show ?thesis using less by (auto intro: rt_shared_ptr)
  next
    case (BasicString k)
    then show ?thesis by (simp add: rt_string)
  next
    case (Vector T')
    then show ?thesis using less by (auto intro: rt_vector)
  next
    case (Array T' n)
    then show ?thesis using less by (auto intro: rt_array)
  next
    case (ListT T')
    then show ?thesis using less by (auto intro: rt_list)
  next
    case (Deque T')
    then show ?thesis using less by (auto intro: rt_deque)
  next
    case (SetT T')
    then show ?thesis using less e by (auto intro: rt_set)
  next
    case (UnorderedSet T')
    then show ?thesis using less e by (auto intro: rt_unordered_set)
  next
    case (PairT A B)
    then show ?thesis using less by (auto intro: rt_pair)
  next
    case (MapT K V)
    then show ?thesis using less e by (auto intro: rt_map)
  next
    case (UnorderedMap K V)
    then show ?thesis using less e by (auto intro: rt_unordered_map)
  next
    case (Tuple Ts)
    have "round_trips e (Tuple Ts) v"
    proof (rule rt_tuple)
      fix T' x
      assume "T' \<in> set Ts"
      then have "weight T' < weight T"
        using Tuple by (simp only: weight_member)
      then show "round_trips e T' x"
        by (rule less)
    qed
    with Tuple show ?thesis by simp
  next
    case (Optional T')
    then show ?thesis using less by (auto intro: rt_optional)
  qed
qed

text \<open>
  The round trip: whenever the encoder completes on an object \<open>v\<close> of type \<open>T\<close>, which
  it does unless it comes to a null smart pointer, decoding the bytes it wrote into a
  value-initialised or default-initialised destination consumes exactly these bytes and
  yields an object equal to \<open>v\<close> under the equality of \<open>T\<close>; this in every environment
  whose containers tell apart the keys that differ in value.
\<close>

lemma round_trip:
  assumes "discerning e" and "of_shape T v" and "wire T v = Inr bs" and "blank e T d"
  shows "\<exists>v'. decode e T d (source (bs @ rest)) = (v', source rest) \<and> same T v v'"
  using round_trips_all [OF assms(1), of T v] assms(2-)
  unfolding round_trips_def by blast

subsection \<open>Where the round trip holds, and where it does not\<close>

lemma wire_each_completes:
  assumes "\<And>x. x \<in> set xs \<Longrightarrow> \<exists>bs. wire T x = Inr bs"
  shows "\<exists>bs. wire_each T xs = Inr bs"
  using assms
proof (induction xs)
  case Nil
  show ?case by simp
next
  case (Cons x xs)
  then obtain a b where "wire T x = Inr a" and "wire_each T xs = Inr b"
    by (metis list.set_intros)
  then show ?case
    by (simp add: wire_each_Cons join_def)
qed

lemma join_completes:
  assumes "\<exists>a. r1 = Inr a" and "\<exists>b. r2 = Inr b"
  shows "\<exists>bs. join r1 r2 = Inr bs"
  using assms by (auto simp: join_def)

lemma wire_vector_completes:
  assumes "\<And>x. x \<in> set (elems v) \<Longrightarrow> \<exists>bs. wire T x = Inr bs"
  shows "\<exists>bs. wire (Vector T) v = Inr bs"
proof -
  have "\<exists>bs. wire_each T (elems v) = Inr bs"
    using assms by (rule wire_each_completes)
  then show ?thesis
    by (cases T) (simp_all add: wire_bulk wire_counted join_completes)
qed

lemma wire_array_completes:
  assumes "\<And>x. x \<in> set (elems v) \<Longrightarrow> \<exists>bs. wire T x = Inr bs"
  shows "\<exists>bs. wire (Array T n) v = Inr bs"
proof (cases "n = 0")
  case True
  then show ?thesis by (simp add: wire_bulk)
next
  case False
  have "\<exists>bs. wire_each T (elems v) = Inr bs"
    using assms by (rule wire_each_completes)
  with False show ?thesis
    by (cases T) (simp_all add: wire_bulk wire_counted)
qed

lemma wire_counted_completes:
  assumes "\<And>x. x \<in> set (elems v) \<Longrightarrow> \<exists>bs. wire T x = Inr bs"
  shows "\<exists>bs. wire (ListT T) v = Inr bs" "\<exists>bs. wire (Deque T) v = Inr bs"
    "\<exists>bs. wire (SetT T) v = Inr bs" "\<exists>bs. wire (UnorderedSet T) v = Inr bs"
proof -
  have "\<exists>bs. wire_each T (elems v) = Inr bs"
    using assms by (rule wire_each_completes)
  then show "\<exists>bs. wire (ListT T) v = Inr bs" "\<exists>bs. wire (Deque T) v = Inr bs"
    "\<exists>bs. wire (SetT T) v = Inr bs" "\<exists>bs. wire (UnorderedSet T) v = Inr bs"
    by (simp_all add: wire_counted join_completes)
qed

lemma wire_map_completes:
  assumes "\<And>x. x \<in> set (elems v) \<Longrightarrow> \<exists>bs. wire K (first x) = Inr bs"
    and "\<And>x. x \<in> set (elems v) \<Longrightarrow> \<exists>bs. wire V (second x) = Inr bs"
  shows "\<exists>bs. wire (MapT K V) v = Inr bs" "\<exists>bs. wire (UnorderedMap K V) v = Inr bs"
proof -
  have "\<exists>bs. wire (PairT K V) x = Inr bs" if "x \<in> set (elems v)" for x
    using assms [OF that] by (simp add: wire_pair join_completes)
  then have "\<exists>bs. wire_each (PairT K V) (elems v) = Inr bs"
    by (rule wire_each_completes)
  then show "\<exists>bs. wire (MapT K V) v = Inr bs" "\<exists>bs. wire (UnorderedMap K V) v = Inr bs"
    by (simp_all add: wire_counted join_completes)
qed

lemma wire_tuple_slots: "wire (Tuple Ts) v = wire (Tuple Ts) (Tup (slots v))"
  by (simp add: wire_def)

text \<open>The encoder completes on every object that holds no null smart pointer.\<close>

lemma wire_completes:
  "null_free T v \<Longrightarrow> \<exists>bs. wire T v = Inr bs"
  "null_free_slots Ts vs \<Longrightarrow> \<exists>bs. wire (Tuple Ts) (Tup vs) = Inr bs"
proof (induction T v and Ts vs rule: null_free_null_free_slots.induct)
  case (1 k v)
  show ?case by (simp add: wire_pod)
next
  case (2 T v)
  then show ?case
    by (cases "payload v") (simp_all add: wire_pointer join_completes)
next
  case (3 T v)
  then show ?case
    by (cases "payload v") (simp_all add: wire_pointer join_completes)
next
  case (4 k v)
  show ?case by (simp add: wire_bulk)
next
  case (5 T v)
  then show ?case
    by (intro wire_vector_completes) (simp add: list_all_iff)
next
  case (6 T n v)
  then show ?case
    by (intro wire_array_completes) (simp add: list_all_iff)
next
  case (7 T v)
  then show ?case
    by (intro wire_counted_completes) (simp add: list_all_iff)
next
  case (8 T v)
  then show ?case
    by (intro wire_counted_completes) (simp add: list_all_iff)
next
  case (9 T v)
  then show ?case
    by (intro wire_counted_completes) (simp add: list_all_iff)
next
  case (10 T v)
  then show ?case
    by (intro wire_counted_completes) (simp add: list_all_iff)
next
  case (11 A B v)
  then show ?case
    by (simp add: wire_pair join_completes)
next
  case (12 K V v)
  then show ?case
    by (intro wire_map_completes) (simp_all add: list_all_iff)
next
  case (13 K V v)
  then show ?case
    by (intro wire_map_completes) (simp_all add: list_all_iff)
next
  case (14 Ts v)
  then show ?case
    by (subst wire_tuple_slots) simp
next
  case (15 T v)
  then show ?case
    by (cases "payload v") (simp_all add: wire_optional join_completes)
next
  case (16 vs)
  show ?case
    by (simp add: wire_def fresh_def)
next
  case (17 T Ts vs)
  then show ?case
    by (cases vs) (simp_all add: wire_tuple_cons join_completes)
qed


lemma discerning_zero_env: "discerning zero_env"
  by (simp add: discerning_def zero_env_def)

text \<open>
  On every object that holds no null smart pointer the encoder completes, and decoding what
  it wrote yields an object of the same value (in an environment that tells keys apart).
\<close>

lemma round_trip_null_free:
  assumes "discerning e" and "of_shape T v" and "null_free T v"
  shows "\<exists>v'. transcode e T v = Inr v' \<and> same T v v'"
proof -
  from assms(3) obtain bs where bs: "wire T v = Inr bs"
    using wire_completes(1) by blast
  from round_trip [OF assms(1,2) bs blank_value_init, of "[]"]
  obtain v' where "decode e T (value_init T) (source bs) = (v', source [])" and "same T v v'"
    by auto
  with bs show ?thesis
    by (simp add: transcode_def)
qed

lemma round_trip_example:
  "transcode zero_env (Vector (Optional (Pod 4)))
       (Seq [Opt None, Opt (Some (Obj (int_rep 456))), Opt (Some (Obj (int_rep 7890)))]) =
     Inr (Seq [Opt None, Opt (Some (Obj (int_rep 456))), Opt (Some (Obj (int_rep 7890)))])"
proof -
  have "replicate 3 (Opt None) = [Opt None, Opt None, Opt None]"
    by (simp add: numeral_3_eq_3)
  then show ?thesis
    by (simp add: transcode_def wire_counted wire_each_Cons wire_optional wire_pod join_def
        size_rep_3 int_rep_456 int_rep_7890 resize_def stream_read_def source_def uninit_def
        zero_env_def as_bool_def le_nat_size_rep_small)
qed

text \<open>
  C1. A null \<^verbatim>\<open>std::unique_ptr\<close> or \<^verbatim>\<open>std::shared_ptr\<close> is a value of its type,
  and so is a vector that holds one. The encoder does not complete on them: it dereferences
  the null pointer, and there are no bytes to decode, whatever the payload type and the
  environment.
\<close>

theorem round_trip_null_pointer:
  "of_shape (UniquePtr T) (Ptr None) \<and>
   transcode e (UniquePtr T) (Ptr None) = Inl NullDereference \<and>
   of_shape (SharedPtr T) (Ptr None) \<and>
   transcode e (SharedPtr T) (Ptr None) = Inl NullDereference \<and>
   of_shape (Vector (UniquePtr (Pod 4))) (Seq [Ptr (Some (Obj (int_rep 5))), Ptr None]) \<and>
   transcode e (Vector (UniquePtr (Pod 4))) (Seq [Ptr (Some (Obj (int_rep 5))), Ptr None]) =
     Inl NullDereference"
  by (simp add: transcode_def wire_pointer wire_counted wire_each_Cons wire_pod join_def
      is_obj_def int_rep_def)

section \<open>Failures of the streams\<close>

lemma stream_read_failed [simp]: "failbit r \<Longrightarrow> stream_read n buf r = (buf, r)"
  by (simp add: stream_read_def)

lemma failbit_cut [simp]: "failbit (cut m r) = failbit r"
  by (simp add: cut_def)

lemma cut_0_more: "cut (m - 0) r = cut m r"
  by simp




















lemma cut_source [simp]: "cut m (source bs) = source (take m bs)"
  by (simp add: cut_def source_def)



lemma stream_write_bad [simp]: "badbit w \<Longrightarrow> stream_write bs w = w"
  by (simp add: stream_write_def)




end
